theory Spec2Isabelle
  imports Main "HOL-Library.AList"
begin

section \<open>The inline edit value object\<close>

text \<open>
  \<^verbatim>\<open>inlineEdit.ts\<close>: an \<^verbatim>\<open>InlineEdit\<close> holds five read-only fields. The classes
  \<^verbatim>\<open>SingleTextEdit\<close>, \<^verbatim>\<open>Command\<close> and \<^verbatim>\<open>InlineCompletionItem\<close> are imported from
  other modules, so their values are type parameters here: \<open>'e\<close> for the text edit and
  \<open>'c\<close> for a command. The field \<^verbatim>\<open>inlineCompletion\<close> is compared with \<^verbatim>\<open>===\<close>, which
  on objects compares references, so an \<^verbatim>\<open>InlineCompletionItem\<close> is modelled by its
  reference.
\<close>

type_synonym ref = nat

record ('e, 'c) InlineEdit =
  edit :: 'e
  isCollapsed :: bool
  renderExplicitly :: bool
  commands :: "'c list"
  inlineCompletion :: ref

text \<open>
  \<^verbatim>\<open>equals(other)\<close>. The method \<^verbatim>\<open>SingleTextEdit.equals\<close> it calls on the \<^verbatim>\<open>edit\<close> field
  is the parameter \<open>edit_equals\<close>.
\<close>

definition equals :: "('e \<Rightarrow> 'e \<Rightarrow> bool) \<Rightarrow> ('e, 'c) InlineEdit \<Rightarrow> ('e, 'c) InlineEdit \<Rightarrow> bool" where
  "equals edit_equals this other \<longleftrightarrow>
     edit_equals (edit this) (edit other)
     \<and> isCollapsed this = isCollapsed other
     \<and> renderExplicitly this = renderExplicitly other
     \<and> inlineCompletion this = inlineCompletion other"

section \<open>JavaScript values\<close>

text \<open>
  The values that \<^verbatim>\<open>csAuthenticationService.ts\<close> handles at run time are what
  \<^verbatim>\<open>JSON.parse\<close> returns, the objects it builds from them, and \<^verbatim>\<open>undefined\<close> (a
  missing property, an unset field). The casts \<^verbatim>\<open>as EncodedCSTokenData\<close>,
  \<^verbatim>\<open>as CSUserProfileResponse\<close> check nothing, so a session is a value of this type and
  not a typed record. Numbers are restricted to integers: fractions, exponents and
  the rounding of doubles beyond \<open>2^53\<close> are outside the model. A string is a list of
  8-bit characters. An object is the list of its properties in order, with distinct
  names.
\<close>

datatype jsval =
    JUndefined
  | JNull
  | JBool bool
  | JNum int
  | JStr string
  | JArr "jsval list"
  | JObj "(string \<times> jsval) list"

abbreviation (input) dquote :: char where "dquote \<equiv> CHR 0x22"

abbreviation (input) bslash :: char where "bslash \<equiv> CHR 0x5C"

section \<open>JSON text\<close>

subsection \<open>Serialisation\<close>

definition is_digit :: "char \<Rightarrow> bool" where
  "is_digit c \<longleftrightarrow> 48 \<le> (of_char c :: nat) \<and> (of_char c :: nat) \<le> 57"

definition digit_char :: "nat \<Rightarrow> char" where
  "digit_char d = ''0123456789'' ! d"

definition digit_val :: "char \<Rightarrow> nat" where
  "digit_val c = of_char c - 48"

text \<open>
  The decimal digits of a natural number, most significant first, and the text of an
  integer as \<^verbatim>\<open>JSON.stringify\<close> and string conversion print it.
\<close>

fun digits :: "nat \<Rightarrow> string" where
  "digits n = (if n < 10 then [digit_char n] else digits (n div 10) @ [digit_char (n mod 10)])"

definition show_int :: "int \<Rightarrow> string" where
  "show_int i = (if i < 0 then CHR ''-'' # digits (nat (- i)) else digits (nat i))"

definition hex_char :: "nat \<Rightarrow> char" where
  "hex_char d = ''0123456789abcdef'' ! d"

text \<open>
  \<^verbatim>\<open>JSON.stringify\<close> on a string: the quotation mark, the backslash and the control
  characters below \<open>0x20\<close> are escaped, the five common ones by their short form and
  the others by a four-digit hexadecimal escape in lower case; every other character is
  copied.
\<close>

definition escape_char :: "char \<Rightarrow> string" where
  "escape_char c =
     (if c = dquote then [bslash, dquote]
      else if c = bslash then [bslash, bslash]
      else if c = CHR 0x08 then [bslash, CHR ''b'']
      else if c = CHR 0x0C then [bslash, CHR ''f'']
      else if c = CHR 0x0A then [bslash, CHR ''n'']
      else if c = CHR 0x0D then [bslash, CHR ''r'']
      else if c = CHR 0x09 then [bslash, CHR ''t'']
      else if (of_char c :: nat) < 32
        then [bslash, CHR ''u'', CHR ''0'', CHR ''0'',
              hex_char ((of_char c :: nat) div 16), hex_char ((of_char c :: nat) mod 16)]
      else [c])"

definition quote :: "string \<Rightarrow> string" where
  "quote s = dquote # concat (map escape_char s) @ [dquote]"

fun commas :: "string list \<Rightarrow> string" where
  "commas [] = []"
| "commas [x] = x"
| "commas (x # y # ys) = x @ CHR '','' # commas (y # ys)"

text \<open>
  A value that JSON text can denote: \<^verbatim>\<open>undefined\<close> occurs nowhere in it and the
  property names of each object are distinct. These are the values of the declared
  type \<^verbatim>\<open>CSAuthenticationSession\<close>, whose fields are strings, a number and a plain
  user record, and the only values that \<^verbatim>\<open>JSON.parse\<close> returns.
\<close>

fun json_value :: "jsval \<Rightarrow> bool" where
  "json_value JUndefined = False"
| "json_value (JArr vs) = (\<forall>v \<in> set vs. json_value v)"
| "json_value (JObj kvs) = (distinct (map fst kvs) \<and> (\<forall>kv \<in> set kvs. json_value (snd kv)))"
| "json_value _ = True"

text \<open>
  \<^verbatim>\<open>JSON.stringify\<close> without indentation. Inside an array \<^verbatim>\<open>undefined\<close> is printed
  as \<^verbatim>\<open>null\<close>; a property whose value is \<^verbatim>\<open>undefined\<close> is left out of its object.
\<close>

fun stringify_val :: "jsval \<Rightarrow> string" where
  "stringify_val JUndefined = ''null''"
| "stringify_val JNull = ''null''"
| "stringify_val (JBool b) = (if b then ''true'' else ''false'')"
| "stringify_val (JNum n) = show_int n"
| "stringify_val (JStr s) = quote s"
| "stringify_val (JArr vs) = CHR ''['' # commas (map stringify_val vs) @ '']''"
| "stringify_val (JObj kvs) =
     CHR ''{'' # commas (map (\<lambda>(k, v). quote k @ CHR '':'' # stringify_val v)
                          (filter (\<lambda>(k, v). v \<noteq> JUndefined) kvs)) @ ''}''"

subsection \<open>Parsing\<close>

definition is_ws :: "char \<Rightarrow> bool" where
  "is_ws c \<longleftrightarrow> c = CHR '' '' \<or> c = CHR 0x09 \<or> c = CHR 0x0A \<or> c = CHR 0x0D"

text \<open>
  \<^verbatim>\<open>JSON.parse\<close>, as a recursive-descent parser: insignificant white space is
  skipped before every token.
\<close>

fun skip_ws :: "string \<Rightarrow> string" where
  "skip_ws [] = []"
| "skip_ws (c # cs) = (if is_ws c then skip_ws cs else c # cs)"

definition strip_prefix :: "string \<Rightarrow> string \<Rightarrow> string option" where
  "strip_prefix p s = (if take (length p) s = p then Some (drop (length p) s) else None)"

definition hex_val :: "char \<Rightarrow> nat option" where
  "hex_val c =
     (let n = (of_char c :: nat) in
      if 48 \<le> n \<and> n \<le> 57 then Some (n - 48)
      else if 97 \<le> n \<and> n \<le> 102 then Some (n - 87)
      else if 65 \<le> n \<and> n \<le> 70 then Some (n - 55)
      else None)"

definition unescape :: "char \<Rightarrow> char option" where
  "unescape e =
     (if e = dquote then Some dquote
      else if e = bslash then Some bslash
      else if e = CHR ''/'' then Some (CHR ''/'')
      else if e = CHR ''b'' then Some (CHR 0x08)
      else if e = CHR ''f'' then Some (CHR 0x0C)
      else if e = CHR ''n'' then Some (CHR 0x0A)
      else if e = CHR ''r'' then Some (CHR 0x0D)
      else if e = CHR ''t'' then Some (CHR 0x09)
      else None)"

definition hex4 :: "char \<Rightarrow> char \<Rightarrow> char \<Rightarrow> char \<Rightarrow> nat option" where
  "hex4 a b c d =
     (case (hex_val a, hex_val b, hex_val c, hex_val d) of
        (Some x, Some y, Some z, Some w) \<Rightarrow> Some (((x * 16 + y) * 16 + z) * 16 + w)
      | _ \<Rightarrow> None)"

definition cons_fst :: "'a \<Rightarrow> ('a list \<times> 'b) option \<Rightarrow> ('a list \<times> 'b) option" where
  "cons_fst x r = (case r of None \<Rightarrow> None | Some (xs, rest) \<Rightarrow> Some (x # xs, rest))"

text \<open>
  The characters of a string literal after its opening quotation mark, up to the
  closing one. A raw control character is an error. A four-digit hexadecimal escape above
  \<open>0xFF\<close> does not fit the 8-bit characters of the model and is rejected.
\<close>

fun parse_string :: "string \<Rightarrow> (string \<times> string) option" where
  "parse_string [] = None"
| "parse_string (c # cs) =
     (if c = dquote then Some ([], cs)
      else if c = bslash then
        (case cs of
           [] \<Rightarrow> None
         | e # cs1 \<Rightarrow>
             if e = CHR ''u'' then
               (case cs1 of
                  h1 # h2 # h3 # h4 # cs2 \<Rightarrow>
                    (case hex4 h1 h2 h3 h4 of
                       None \<Rightarrow> None
                     | Some n \<Rightarrow> if n < 256 then cons_fst (char_of n) (parse_string cs2) else None)
                | _ \<Rightarrow> None)
             else
               (case unescape e of
                  None \<Rightarrow> None
                | Some x \<Rightarrow> cons_fst x (parse_string cs1)))
      else if (of_char c :: nat) < 32 then None
      else cons_fst c (parse_string cs))"

definition nat_of_digits :: "string \<Rightarrow> nat" where
  "nat_of_digits ds = foldl (\<lambda>a c. 10 * a + digit_val c) 0 ds"

text \<open>
  A number literal: an optional minus sign and digits without a leading zero. A
  fraction or an exponent is left in the remaining input, where the caller rejects
  it.
\<close>

definition parse_number :: "string \<Rightarrow> (jsval \<times> string) option" where
  "parse_number s =
     (let neg = (s \<noteq> [] \<and> hd s = CHR ''-'');
          s1 = (if neg then tl s else s);
          ds = takeWhile is_digit s1;
          rest = dropWhile is_digit s1
      in if ds = [] then None
         else if hd ds = CHR ''0'' \<and> tl ds \<noteq> [] then None
         else Some (JNum (if neg then - int (nat_of_digits ds) else int (nat_of_digits ds)), rest))"

definition map_fst :: "('a \<Rightarrow> 'c) \<Rightarrow> ('a \<times> 'b) option \<Rightarrow> ('c \<times> 'b) option" where
  "map_fst f r = (case r of None \<Rightarrow> None | Some (x, rest) \<Rightarrow> Some (f x, rest))"

text \<open>
  The object built from the members of an object literal, in order: a repeated
  name overwrites the earlier value in place, as \<^verbatim>\<open>JSON.parse\<close> does.
\<close>

definition mk_obj :: "(string \<times> jsval) list \<Rightarrow> jsval" where
  "mk_obj ms = JObj (foldl (\<lambda>kvs (k, v). AList.update k v kvs) [] ms)"

text \<open>
  The three mutually recursive parsers for a value, the elements of an array after
  its opening bracket, and the members of an object after its opening brace. Each
  returns the value and the remaining input. The first argument bounds the number
  of nested calls. Every call consumes a character before it calls again, so
  twice the length of the input is a bound that is never used up: a larger one
  gives the same result (lemma \<open>JSON_parse_fuel\<close>).
\<close>

fun parse_value :: "nat \<Rightarrow> string \<Rightarrow> (jsval \<times> string) option"
  and parse_elems :: "nat \<Rightarrow> string \<Rightarrow> (jsval list \<times> string) option"
  and parse_members :: "nat \<Rightarrow> string \<Rightarrow> ((string \<times> jsval) list \<times> string) option"
where
  "parse_value 0 s = None"
| "parse_value (Suc n) s =
     (case skip_ws s of
        [] \<Rightarrow> None
      | c # r \<Rightarrow>
          if c = CHR ''n'' then map_option (Pair JNull) (strip_prefix ''ull'' r)
          else if c = CHR ''t'' then map_option (Pair (JBool True)) (strip_prefix ''rue'' r)
          else if c = CHR ''f'' then map_option (Pair (JBool False)) (strip_prefix ''alse'' r)
          else if c = dquote then map_fst JStr (parse_string r)
          else if c = CHR ''['' then
            (case skip_ws r of
               [] \<Rightarrow> None
             | d # r1 \<Rightarrow> if d = CHR '']'' then Some (JArr [], r1)
                         else map_fst JArr (parse_elems n (d # r1)))
          else if c = CHR ''{'' then
            (case skip_ws r of
               [] \<Rightarrow> None
             | d # r1 \<Rightarrow> if d = CHR ''}'' then Some (JObj [], r1)
                         else map_fst mk_obj (parse_members n (d # r1)))
          else parse_number (c # r))"
| "parse_elems 0 s = None"
| "parse_elems (Suc n) s =
     (case parse_value n s of
        None \<Rightarrow> None
      | Some (v, r) \<Rightarrow>
          (case skip_ws r of
             [] \<Rightarrow> None
           | c # r1 \<Rightarrow>
               if c = CHR '','' then cons_fst v (parse_elems n r1)
               else if c = CHR '']'' then Some ([v], r1)
               else None))"
| "parse_members 0 s = None"
| "parse_members (Suc n) s =
     (case skip_ws s of
        [] \<Rightarrow> None
      | c # r \<Rightarrow>
          if c \<noteq> dquote then None
          else
            (case parse_string r of
               None \<Rightarrow> None
             | Some (k, r1) \<Rightarrow>
                 (case skip_ws r1 of
                    [] \<Rightarrow> None
                  | c1 # r2 \<Rightarrow>
                      if c1 \<noteq> CHR '':'' then None
                      else
                        (case parse_value n r2 of
                           None \<Rightarrow> None
                         | Some (v, r3) \<Rightarrow>
                             (case skip_ws r3 of
                                [] \<Rightarrow> None
                              | c3 # r4 \<Rightarrow>
                                  if c3 = CHR '','' then cons_fst (k, v) (parse_members n r4)
                                  else if c3 = CHR ''}'' then Some ([(k, v)], r4)
                                  else None)))))"

text \<open>
  \<^verbatim>\<open>JSON.parse(text)\<close>: one value, with nothing but white space after it.
  \<open>None\<close> is the \<^verbatim>\<open>SyntaxError\<close>.
\<close>

definition JSON_parse :: "string \<Rightarrow> jsval option" where
  "JSON_parse s =
     (case parse_value (2 * length s) s of
        None \<Rightarrow> None
      | Some (v, rest) \<Rightarrow> if skip_ws rest = [] then Some v else None)"

text \<open>
  \<^verbatim>\<open>JSON.stringify(v)\<close>: \<^verbatim>\<open>undefined\<close> (here \<open>None\<close>) for \<^verbatim>\<open>undefined\<close>, a string
  otherwise.
\<close>

definition JSON_stringify :: "jsval \<Rightarrow> string option" where
  "JSON_stringify v = (if v = JUndefined then None else Some (stringify_val v))"

section \<open>Operations on values\<close>

text \<open>
  What the code can throw or reject with: \<^verbatim>\<open>new Error(message)\<close>, the
  \<^verbatim>\<open>TypeError\<close> of a property read on \<^verbatim>\<open>null\<close> or \<^verbatim>\<open>undefined\<close>, the
  \<^verbatim>\<open>SyntaxError\<close> of \<^verbatim>\<open>JSON.parse\<close>, a rejection whose reason is a plain string
  (\<^verbatim>\<open>reject('Cancelled')\<close>), and a failure inside a host service.
\<close>

datatype exn =
    JsError string
  | TypeError
  | SyntaxError
  | Reason string
  | HostFailure string

text \<open>
  Truthiness, as tested by \<^verbatim>\<open>!this._session\<close>.
\<close>

fun truthy :: "jsval \<Rightarrow> bool" where
  "truthy JUndefined = False"
| "truthy JNull = False"
| "truthy (JBool b) = b"
| "truthy (JNum n) = (n \<noteq> 0)"
| "truthy (JStr s) = (s \<noteq> [])"
| "truthy (JArr vs) = True"
| "truthy (JObj kvs) = True"

text \<open>
  A property read \<^verbatim>\<open>v.k\<close>, for the property names this service reads (none of them
  is inherited from a prototype): it throws on \<^verbatim>\<open>null\<close> and \<^verbatim>\<open>undefined\<close> and gives
  \<^verbatim>\<open>undefined\<close> for a missing property and for a primitive value.
\<close>

fun get_prop :: "jsval \<Rightarrow> string \<Rightarrow> exn + jsval" where
  "get_prop JUndefined k = Inl TypeError"
| "get_prop JNull k = Inl TypeError"
| "get_prop (JObj kvs) k = Inr (case map_of kvs k of None \<Rightarrow> JUndefined | Some v \<Rightarrow> v)"
| "get_prop v k = Inr JUndefined"

text \<open>
  String conversion, as in the template literal \<^verbatim>\<open>`Bearer ${data.access_token}`\<close>.
\<close>

fun to_string :: "jsval \<Rightarrow> string" where
  "to_string JUndefined = ''undefined''"
| "to_string JNull = ''null''"
| "to_string (JBool b) = (if b then ''true'' else ''false'')"
| "to_string (JNum n) = show_int n"
| "to_string (JStr s) = s"
| "to_string (JArr vs) =
     commas (map (\<lambda>v. if v = JUndefined \<or> v = JNull then [] else to_string v) vs)"
| "to_string (JObj kvs) = ''[object Object]''"

text \<open>
  The own enumerable properties that an object spread \<^verbatim>\<open>{ ...data, ...tokens }\<close>
  copies: the properties of an object, the indices of an array or a string, nothing
  for the other values. Later properties overwrite earlier ones.
\<close>

fun own_props :: "jsval \<Rightarrow> (string \<times> jsval) list" where
  "own_props (JObj kvs) = kvs"
| "own_props (JArr vs) = zip (map (\<lambda>i. digits i) [0 ..< length vs]) vs"
| "own_props (JStr s) = zip (map (\<lambda>i. digits i) [0 ..< length s]) (map (\<lambda>c. JStr [c]) s)"
| "own_props v = []"

definition spread :: "jsval \<Rightarrow> jsval \<Rightarrow> jsval" where
  "spread a b = mk_obj (own_props a @ own_props b)"

section \<open>Callback URIs\<close>

text \<open>
  A \<^verbatim>\<open>URI\<close> as the URL service hands it to a handler. \<^verbatim>\<open>handleUri\<close> reads its
  \<^verbatim>\<open>query\<close> only.
\<close>

record uri =
  scheme :: string
  authority :: string
  path :: string
  query :: string
  fragment :: string

text \<open>
  \<^verbatim>\<open>new URLSearchParams(uri.query)\<close>: a leading question mark is dropped, the string
  is split at every ampersand, empty pieces are skipped, each piece is split at its
  first equals sign, and in both halves a plus sign becomes a space and
  \<^verbatim>\<open>%XX\<close> becomes the byte it denotes. \<^verbatim>\<open>get(name)\<close> is the first value with that
  name. The bytes are kept as the 8-bit characters of the model; the UTF-8 decoding
  that the code applies to bytes above \<open>0x7F\<close> is outside it.
\<close>

fun split_on :: "char \<Rightarrow> string \<Rightarrow> string list" where
  "split_on d [] = [[]]"
| "split_on d (c # cs) =
     (if c = d then [] # split_on d cs
      else (case split_on d cs of [] \<Rightarrow> [[c]] | x # xs \<Rightarrow> (c # x) # xs))"

fun split_first :: "char \<Rightarrow> string \<Rightarrow> string \<times> string" where
  "split_first d [] = ([], [])"
| "split_first d (c # cs) =
     (if c = d then ([], cs) else (case split_first d cs of (a, b) \<Rightarrow> (c # a, b)))"

fun percent_decode :: "string \<Rightarrow> string" where
  "percent_decode (c # h # l # cs) =
     (if c = CHR ''%'' then
        (case (hex_val h, hex_val l) of
           (Some x, Some y) \<Rightarrow> char_of (x * 16 + y) # percent_decode cs
         | _ \<Rightarrow> c # percent_decode (h # l # cs))
      else c # percent_decode (h # l # cs))"
| "percent_decode cs = cs"

definition form_decode :: "string \<Rightarrow> string" where
  "form_decode s = percent_decode (map (\<lambda>c. if c = CHR ''+'' then CHR '' '' else c) s)"

definition URLSearchParams :: "string \<Rightarrow> (string \<times> string) list" where
  "URLSearchParams init =
     (let s = (if init \<noteq> [] \<and> hd init = CHR ''?'' then tl init else init)
      in map (\<lambda>seg. case split_first (CHR ''='') seg of (n, v) \<Rightarrow> (form_decode n, form_decode v))
           (filter (\<lambda>seg. seg \<noteq> []) (split_on (CHR ''&'') s)))"

definition search_get :: "(string \<times> string) list \<Rightarrow> string \<Rightarrow> string option" where
  "search_get params name = map_of params name"

section \<open>Collaborators of the authentication service\<close>

text \<open>
  Notifications shown to the user, as passed to \<^verbatim>\<open>notificationService.notify\<close>.
\<close>

datatype Severity = Ignore | Info | Warning | Error

datatype NotificationPriority = DEFAULT | SILENT | URGENT

record notification =
  severity :: Severity
  message :: string
  priority :: NotificationPriority

text \<open>
  A call of \<^verbatim>\<open>fetch\<close> and its answer. Reading the body of a response can fail.
\<close>

record request =
  url :: string
  http_method :: string
  headers :: "(string \<times> string) list"
  req_body :: "string option"

record response =
  ok :: bool
  body :: "exn + string"

text \<open>
  The event that settles \<^verbatim>\<open>Promise.race\<close> in \<^verbatim>\<open>login\<close> first: the URL service
  hands a URI to the registered handler, the 60 second timer fires, or the user
  cancels the progress notification.
\<close>

datatype race_event = HandleURL uri | Timeout | CancellationRequested

text \<open>
  The world outside the service during one call. \<^verbatim>\<open>fetch\<close> answers a request or
  rejects; \<^verbatim>\<open>generateUuid\<close> gives the identifier of its \<open>n\<close>-th call;
  \<^verbatim>\<open>openerService.open\<close> resolves or rejects; \<open>race\<close> is the event that wins the
  login race. \<^verbatim>\<open>decodeBase64\<close> together with \<^verbatim>\<open>toString\<close> of the buffer it returns
  lives in another module and is a parameter, as is the numeric value of a string
  in the comparison \<^verbatim>\<open>waitlistPosition > 0\<close>.
\<close>

record env =
  fetch :: "request \<Rightarrow> exn + response"
  generateUuid :: "nat \<Rightarrow> string"
  opener_open :: "string \<Rightarrow> exn + bool"
  race :: race_event
  decodeBase64 :: "string \<Rightarrow> exn + string"
  string_gt_zero :: "string \<Rightarrow> bool"

text \<open>
  The fields of the service (\<^verbatim>\<open>_subscriptionsAPIBase\<close>, \<^verbatim>\<open>_websiteBase\<close>,
  \<^verbatim>\<open>_pendingStates\<close>, \<^verbatim>\<open>_session\<close>), the secret storage, and a record of what the
  service did to its collaborators: the notifications shown, the sessions fired on
  \<^verbatim>\<open>onDidAuthenticate\<close>, the requests sent, the URLs opened and the number of
  UUIDs drawn.
\<close>

record state =
  subscriptionsAPIBase :: string
  websiteBase :: string
  m_pendingStates :: "string list"
  m_session :: jsval
  secrets :: "string \<rightharpoonup> string"
  notifications :: "notification list"
  fired :: "jsval list"
  requests :: "request list"
  opened :: "string list"
  uuid_calls :: nat

text \<open>
  An asynchronous computation: it either throws or returns, and updates the state.
  \<open>await m k\<close> is \<^verbatim>\<open>const x = await m; k(x)\<close>; an exception of \<open>m\<close> leaves at
  once. \<open>try_finally\<close> and \<open>catch_all\<close> are \<^verbatim>\<open>try { } finally { }\<close> and
  \<^verbatim>\<open>try { } catch (e) { return; }\<close>.
\<close>

type_synonym 'a io = "state \<Rightarrow> (exn + 'a) \<times> state"

definition return :: "'a \<Rightarrow> 'a io" where
  "return x = (\<lambda>st. (Inr x, st))"

definition throw :: "exn \<Rightarrow> 'a io" where
  "throw e = (\<lambda>st. (Inl e, st))"

definition js :: "exn + 'a \<Rightarrow> 'a io" where
  "js r = (\<lambda>st. (r, st))"

definition await :: "'a io \<Rightarrow> ('a \<Rightarrow> 'b io) \<Rightarrow> 'b io" where
  "await m k = (\<lambda>st. case m st of (Inl e, st1) \<Rightarrow> (Inl e, st1) | (Inr x, st1) \<Rightarrow> k x st1)"

definition try_finally :: "'a io \<Rightarrow> (state \<Rightarrow> state) \<Rightarrow> 'a io" where
  "try_finally m cleanup = (\<lambda>st. case m st of (r, st1) \<Rightarrow> (r, cleanup st1))"

definition catch_all :: "unit io \<Rightarrow> unit io" where
  "catch_all m = (\<lambda>st. case m st of (Inl e, st1) \<Rightarrow> (Inr (), st1) | (Inr x, st1) \<Rightarrow> (Inr x, st1))"

definition this_field :: "(state \<Rightarrow> 'a) \<Rightarrow> 'a io" where
  "this_field field = (\<lambda>st. (Inr (field st), st))"

section \<open>The authentication service\<close>

text \<open>
  Modelled from the spec: the secret storage service is a host collaborator that is
  not part of these sources. It is one slot per key holding a string; \<^verbatim>\<open>get\<close>
  returns the string or nothing, \<^verbatim>\<open>set\<close> replaces the whole value, \<^verbatim>\<open>delete\<close>
  empties the slot, and each is a single atomic operation that does not fail.
\<close>

definition SESSION_SECRET_KEY :: string where
  "SESSION_SECRET_KEY = ''codestory.auth.session''"

definition secret_get :: "string \<Rightarrow> string option io" where
  "secret_get key = (\<lambda>st. (Inr (secrets st key), st))"

definition secret_set :: "string \<Rightarrow> string \<Rightarrow> unit io" where
  "secret_set key val = (\<lambda>st. (Inr (), st\<lparr>secrets := (secrets st)(key \<mapsto> val)\<rparr>))"

definition secret_delete :: "string \<Rightarrow> unit io" where
  "secret_delete key = (\<lambda>st. (Inr (), st\<lparr>secrets := (secrets st)(key := None)\<rparr>))"

text \<open>
  Modelled from the spec: the notification service, the event emitter, \<^verbatim>\<open>fetch\<close>,
  the opener and the UUID generator are collaborators consumed through narrow
  interfaces. Each call is recorded in the state; its answer comes from the
  environment.
\<close>

definition notify :: "notification \<Rightarrow> unit io" where
  "notify n = (\<lambda>st. (Inr (), st\<lparr>notifications := notifications st @ [n]\<rparr>))"

definition fire :: "jsval \<Rightarrow> unit io" where
  "fire session = (\<lambda>st. (Inr (), st\<lparr>fired := fired st @ [session]\<rparr>))"

definition do_fetch :: "env \<Rightarrow> request \<Rightarrow> response io" where
  "do_fetch env req = (\<lambda>st. (fetch env req, st\<lparr>requests := requests st @ [req]\<rparr>))"

definition do_open :: "env \<Rightarrow> string \<Rightarrow> bool io" where
  "do_open env target = (\<lambda>st. (opener_open env target, st\<lparr>opened := opened st @ [target]\<rparr>))"

definition do_generateUuid :: "env \<Rightarrow> string io" where
  "do_generateUuid env =
     (\<lambda>st. (Inr (generateUuid env (uuid_calls st)), st\<lparr>uuid_calls := Suc (uuid_calls st)\<rparr>))"

text \<open>
  \<^verbatim>\<open>resp.text()\<close>, \<^verbatim>\<open>JSON.parse\<close> as a throwing operation, and \<^verbatim>\<open>response.json()\<close>.
\<close>

definition response_text :: "response \<Rightarrow> exn + string" where
  "response_text r = body r"

definition JSON_parse_js :: "string \<Rightarrow> exn + jsval" where
  "JSON_parse_js text = (case JSON_parse text of None \<Rightarrow> Inl SyntaxError | Some v \<Rightarrow> Inr v)"

definition response_json :: "response \<Rightarrow> exn + jsval" where
  "response_json r = (case body r of Inl e \<Rightarrow> Inl e | Inr text \<Rightarrow> JSON_parse_js text)"

definition auth_failed_message :: string where
  "auth_failed_message = ''Failed to authenticate with CodeStory. Please try logging in again.''"

text \<open>
  The two requests: \<^verbatim>\<open>POST {base}/v1/auth/refresh\<close> with the stored refresh token
  in a JSON body, and \<^verbatim>\<open>GET {base}/v1/users/me\<close> with the access token as bearer.
\<close>

definition refresh_request :: "string \<Rightarrow> jsval \<Rightarrow> request" where
  "refresh_request base refreshToken =
     \<lparr>url = base @ ''/v1/auth/refresh'',
      http_method = ''POST'',
      headers = [(''Content-Type'', ''application/json'')],
      req_body = JSON_stringify (JObj [(''refresh_token'', refreshToken)])\<rparr>"

definition profile_request :: "string \<Rightarrow> jsval \<Rightarrow> request" where
  "profile_request base access_token =
     \<lparr>url = base @ ''/v1/users/me'',
      http_method = ''GET'',
      headers = [(''Content-Type'', ''application/json''),
                 (''Authorization'', ''Bearer '' @ to_string access_token)],
      req_body = None\<rparr>"

text \<open>
  \<^verbatim>\<open>setSession\<close> (lines 151-154) assigns \<^verbatim>\<open>this._session\<close> and then writes the JSON
  text of the session to the secret storage. Both call sites pass an object
  literal, for which \<^verbatim>\<open>JSON.stringify\<close> returns a string.
\<close>

definition setSession :: "jsval \<Rightarrow> unit io" where
  "setSession session =
     await (\<lambda>st. (Inr (), st\<lparr>m_session := session\<rparr>)) (\<lambda>_.
       case JSON_stringify session of
         None \<Rightarrow> throw (HostFailure ''secret storage value is not a string'')
       | Some text \<Rightarrow> secret_set SESSION_SECRET_KEY text)"

text \<open>
  \<^verbatim>\<open>deleteSession\<close> (lines 156-158) deletes the secret storage entry. It does not
  assign \<^verbatim>\<open>this._session\<close>.
\<close>

definition deleteSession :: "unit io" where
  "deleteSession = secret_delete SESSION_SECRET_KEY"

text \<open>
  \<^verbatim>\<open>getSession\<close> (lines 228-231) reads the secret storage entry and parses it; a
  missing or empty entry gives \<^verbatim>\<open>undefined\<close>.
\<close>

definition getSession :: "jsval io" where
  "getSession =
     await (secret_get SESSION_SECRET_KEY) (\<lambda>session.
       case session of
         None \<Rightarrow> return JUndefined
       | Some text \<Rightarrow> if text = [] then return JUndefined else js (JSON_parse_js text))"

text \<open>
  The \<^verbatim>\<open>try\<close> block of \<^verbatim>\<open>refreshTokens\<close> (lines 76-116). \<^verbatim>\<open>data.access_token\<close> is
  first read for the header of the second request, before that request is sent.
  The answer of the second request is read without a test of its status.
\<close>

definition refreshTokens_try :: "env \<Rightarrow> unit io" where
  "refreshTokens_try env =
     await (this_field subscriptionsAPIBase) (\<lambda>base.
     await (this_field m_session) (\<lambda>session.
     await (js (get_prop session ''refreshToken'')) (\<lambda>refreshToken.
     await (do_fetch env (refresh_request base refreshToken)) (\<lambda>response.
       if \<not> ok response then
         await (notify \<lparr>severity = Error, message = auth_failed_message, priority = URGENT\<rparr>) (\<lambda>_.
         await deleteSession (\<lambda>_.
         throw (JsError auth_failed_message)))
       else
         await (js (response_json response)) (\<lambda>data.
         await (js (get_prop data ''access_token'')) (\<lambda>bearer.
         await (do_fetch env (profile_request base bearer)) (\<lambda>resp.
         await (js (response_text resp)) (\<lambda>text.
         await (js (JSON_parse_js text)) (\<lambda>userProfile.
         await (this_field m_session) (\<lambda>session1.
         await (js (get_prop session1 ''id'')) (\<lambda>id.
         await (js (get_prop data ''access_token'')) (\<lambda>access_token.
         await (js (get_prop data ''refresh_token'')) (\<lambda>refresh_token.
         await (js (get_prop userProfile ''user'')) (\<lambda>user.
         await (js (get_prop userProfile ''waitlistPosition'')) (\<lambda>waitlistPosition.
         setSession (JObj [(''id'', id),
                           (''accessToken'', access_token),
                           (''refreshToken'', refresh_token),
                           (''account'', user),
                           (''waitlistPosition'', waitlistPosition)]))))))))))))))))"

text \<open>
  \<^verbatim>\<open>refreshTokens\<close> (lines 71-120): nothing happens without an in-memory session;
  otherwise the block above runs and every exception is swallowed.
\<close>

definition refreshTokens :: "env \<Rightarrow> unit io" where
  "refreshTokens env =
     await (this_field m_session) (\<lambda>session.
       if \<not> truthy session then return ()
       else catch_all (refreshTokens_try env))"

text \<open>
  The constructor (lines 45-63) chooses the two base URLs and leaves the other
  fields at their initial values; \<^verbatim>\<open>initialize\<close> (lines 65-69) then loads the
  stored session into \<^verbatim>\<open>this._session\<close> and refreshes once.
\<close>

definition new_service :: "bool \<Rightarrow> bool \<Rightarrow> (string \<rightharpoonup> string) \<Rightarrow> state" where
  "new_service isBuilt isExtensionDevelopment stored =
     (let isDevelopment = (\<not> isBuilt \<or> isExtensionDevelopment)
      in \<lparr>subscriptionsAPIBase =
            (if isDevelopment then ''https://staging-api.codestory.ai'' else ''https://api.codestory.ai''),
          websiteBase = (if isDevelopment then ''https://staging.aide.dev'' else ''https://aide.dev''),
          m_pendingStates = [],
          m_session = JUndefined,
          secrets = stored,
          notifications = [], fired = [], requests = [], opened = [], uuid_calls = 0\<rparr>)"

definition initialize :: "env \<Rightarrow> unit io" where
  "initialize env =
     await (secret_get SESSION_SECRET_KEY) (\<lambda>session.
     await (case session of
              None \<Rightarrow> return JUndefined
            | Some text \<Rightarrow> if text = [] then return JUndefined else js (JSON_parse_js text)) (\<lambda>parsed.
     await (\<lambda>st. (Inr (), st\<lparr>m_session := parsed\<rparr>)) (\<lambda>_.
     refreshTokens env)))"

text \<open>
  \<^verbatim>\<open>handleUri\<close> (lines 218-226) returns the \<^verbatim>\<open>data\<close> query parameter, or the empty
  string when it is missing or empty. It reads no other parameter. The handler
  registered in \<^verbatim>\<open>login\<close> (lines 188-200) resolves the login promise with that
  string and accepts the URI, or rejects the promise if \<^verbatim>\<open>handleUri\<close> throws.
\<close>

definition handleUri :: "uri \<Rightarrow> exn + string" where
  "handleUri u =
     (let params = URLSearchParams (query u);
          encodedData = search_get params ''data''
      in case encodedData of
           None \<Rightarrow> Inr []
         | Some d \<Rightarrow> if d = [] then Inr [] else Inr d)"

definition handleURL :: "uri \<Rightarrow> (exn + string) \<times> bool" where
  "handleURL u =
     (case handleUri u of
        Inr tokenData \<Rightarrow> (Inr tokenData, True)
      | Inl e \<Rightarrow> (Inl e, False))"

text \<open>
  \<^verbatim>\<open>Promise.race([loginPromise, timeoutPromise, cancellationPromise])\<close>: the first
  event settles it.
\<close>

definition promise_race :: "env \<Rightarrow> string io" where
  "promise_race env =
     (case race env of
        HandleURL u \<Rightarrow> js (fst (handleURL u))
      | Timeout \<Rightarrow> throw (Reason ''Cancelled'')
      | CancellationRequested \<Rightarrow> throw (Reason ''User Cancelled''))"

text \<open>
  \<^verbatim>\<open>login\<close> (lines 160-216). The identifier is pushed and the authorization URL is
  opened before the \<^verbatim>\<open>try\<close> block; the race runs inside it, and the \<^verbatim>\<open>finally\<close>
  block filters the identifier out of \<^verbatim>\<open>_pendingStates\<close>. The progress service runs
  the task and passes its result on.
\<close>

definition login :: "env \<Rightarrow> string io" where
  "login env =
     await (do_generateUuid env) (\<lambda>stateId.
     await (\<lambda>st. (Inr (), st\<lparr>m_pendingStates := m_pendingStates st @ [stateId]\<rparr>)) (\<lambda>_.
     await (this_field websiteBase) (\<lambda>website.
     await (do_open env (website @ ''/authenticate?state='' @ stateId)) (\<lambda>_.
     try_finally (promise_race env)
       (\<lambda>st. st\<lparr>m_pendingStates := filter (\<lambda>n. n \<noteq> stateId) (m_pendingStates st)\<rparr>)))))"

text \<open>
  \<^verbatim>\<open>getUserInfo\<close> (lines 238-255).
\<close>

definition getUserInfo :: "env \<Rightarrow> string \<Rightarrow> jsval io" where
  "getUserInfo env encodedTokenData =
     await (js (decodeBase64 env encodedTokenData)) (\<lambda>tokenData.
     await (js (JSON_parse_js tokenData)) (\<lambda>tokens.
     await (this_field subscriptionsAPIBase) (\<lambda>base.
     await (js (get_prop tokens ''access_token'')) (\<lambda>bearer.
     await (do_fetch env (profile_request base bearer)) (\<lambda>resp.
     await (js (response_text resp)) (\<lambda>text.
     await (js (JSON_parse_js text)) (\<lambda>data.
     return (spread data tokens))))))))"

text \<open>
  The comparison \<^verbatim>\<open>waitlistPosition > 0\<close>: \<^verbatim>\<open>undefined\<close> converts to \<^verbatim>\<open>NaN\<close> and
  \<^verbatim>\<open>null\<close> to \<open>0\<close>, a boolean to \<open>0\<close> or \<open>1\<close>, and any other value to a string
  first.
\<close>

definition js_gt_zero :: "env \<Rightarrow> jsval \<Rightarrow> bool" where
  "js_gt_zero env v =
     (case v of
        JUndefined \<Rightarrow> False
      | JNull \<Rightarrow> False
      | JBool b \<Rightarrow> b
      | JNum n \<Rightarrow> 0 < n
      | _ \<Rightarrow> string_gt_zero env (to_string v))"

text \<open>
  \<^verbatim>\<open>notifyWaitlistPosition\<close> (lines 257-268).
\<close>

definition waitlist_message :: "jsval \<Rightarrow> string" where
  "waitlist_message position =
     ''You are currently on the CodeStory waitlist ''
     @ (if truthy position then ''at position '' @ to_string position else [])
     @ ''.'' @ [CHR 0x0A]
     @ ''Having a waitlist is currently the best way for us to sustainably manage the growth of our platform and resolving issues''
     @ [CHR 0x0A]
     @ ''with a smaller group of users before opening up to more users. We will send you an email soon as we are ready for you!''
     @ [CHR 0x0A]
     @ ''In the meantime, you can continue using the editor just like VSCode as they are fully compatible with each other.''"

definition notifyWaitlistPosition :: "jsval \<Rightarrow> unit io" where
  "notifyWaitlistPosition position =
     notify \<lparr>severity = Error, message = waitlist_message position, priority = URGENT\<rparr>"

text \<open>
  \<^verbatim>\<open>createSession\<close> (lines 122-149). The \<^verbatim>\<open>catch\<close> block rethrows and is omitted.
  The event is fired before the session is stored.
\<close>

definition createSession :: "env \<Rightarrow> jsval io" where
  "createSession env =
     await (login env) (\<lambda>encodedTokenData.
       if encodedTokenData = [] then throw (JsError ''CodeStory login failure'')
       else
         await (getUserInfo env encodedTokenData) (\<lambda>userInfo.
         await (js (get_prop userInfo ''user'')) (\<lambda>user.
         await (js (get_prop userInfo ''access_token'')) (\<lambda>access_token.
         await (js (get_prop userInfo ''refresh_token'')) (\<lambda>refresh_token.
         await (js (get_prop userInfo ''waitlistPosition'')) (\<lambda>waitlistPosition.
         await (if js_gt_zero env waitlistPosition
                then notifyWaitlistPosition waitlistPosition else return ()) (\<lambda>_.
         await (do_generateUuid env) (\<lambda>id.
         await (return (JObj [(''id'', JStr id),
                              (''accessToken'', access_token),
                              (''refreshToken'', refresh_token),
                              (''account'', user),
                              (''waitlistPosition'', waitlistPosition)])) (\<lambda>session.
         await (fire session) (\<lambda>_.
         await (setSession session) (\<lambda>_.
         return session)))))))))))"

section \<open>Auxiliary notions for the proofs\<close>

text \<open>
  Input that may follow a printed number: it does not begin with a digit.
\<close>

definition ok_rest :: "string \<Rightarrow> bool" where
  "ok_rest rest \<longleftrightarrow> (case rest of [] \<Rightarrow> True | c # _ \<Rightarrow> \<not> is_digit c)"

text \<open>
  The text \<^verbatim>\<open>JSON.stringify\<close> prints for one property.
\<close>

definition member_text :: "string \<times> jsval \<Rightarrow> string" where
  "member_text kv = quote (fst kv) @ CHR '':'' # stringify_val (snd kv)"

text \<open>
  What \<open>parse_value\<close> does with the first character after the white space.
\<close>

definition value_step :: "nat \<Rightarrow> char \<Rightarrow> string \<Rightarrow> (jsval \<times> string) option" where
  "value_step n c r =
     (if c = CHR ''n'' then map_option (Pair JNull) (strip_prefix ''ull'' r)
      else if c = CHR ''t'' then map_option (Pair (JBool True)) (strip_prefix ''rue'' r)
      else if c = CHR ''f'' then map_option (Pair (JBool False)) (strip_prefix ''alse'' r)
      else if c = dquote then map_fst JStr (parse_string r)
      else if c = CHR ''['' then
        (case skip_ws r of
           [] \<Rightarrow> None
         | d # r1 \<Rightarrow> if d = CHR '']'' then Some (JArr [], r1)
                     else map_fst JArr (parse_elems n (d # r1)))
      else if c = CHR ''{'' then
        (case skip_ws r of
           [] \<Rightarrow> None
         | d # r1 \<Rightarrow> if d = CHR ''}'' then Some (JObj [], r1)
                     else map_fst mk_obj (parse_members n (d # r1)))
      else parse_number (c # r))"

text \<open>
  The URL that \<^verbatim>\<open>login\<close> opens, and the settlement of the race as a value.
\<close>

definition login_url :: "env \<Rightarrow> state \<Rightarrow> string" where
  "login_url env st = websiteBase st @ ''/authenticate?state='' @ generateUuid env (uuid_calls st)"

definition race_outcome :: "race_event \<Rightarrow> exn + string" where
  "race_outcome ev =
     (case ev of
        HandleURL u \<Rightarrow> fst (handleURL u)
      | Timeout \<Rightarrow> Inl (Reason ''Cancelled'')
      | CancellationRequested \<Rightarrow> Inl (Reason ''User Cancelled''))"


text \<open>
  The profile request fails: \<^verbatim>\<open>fetch\<close> rejects, the body cannot be read, the
  body is not JSON text, or it is the text \<^verbatim>\<open>null\<close>, whose properties cannot be
  read.
\<close>

definition profile_fails :: "env \<Rightarrow> string \<Rightarrow> jsval \<Rightarrow> bool" where
  "profile_fails env base bearer =
     (case fetch env (profile_request base bearer) of
        Inl e \<Rightarrow> True
      | Inr resp \<Rightarrow>
          (case response_text resp of
             Inl e \<Rightarrow> True
           | Inr text \<Rightarrow> JSON_parse text = None \<or> JSON_parse text = Some JNull))"

text \<open>
  Three callback URIs: one with a \<^verbatim>\<open>state\<close> that no attempt has issued and a
  \<^verbatim>\<open>data\<close> payload, one with the payload and no \<^verbatim>\<open>state\<close>, one with a
  \<^verbatim>\<open>state\<close> only.
\<close>

definition callback_other_state :: uri where
  "callback_other_state =
     \<lparr>scheme = ''aide'', authority = ''codestory'', path = ''/authenticate-codestory'',
      query = ''state=other&data=eyJ0'', fragment = ''''\<rparr>"

definition callback_no_state :: uri where
  "callback_no_state =
     \<lparr>scheme = ''aide'', authority = ''codestory'', path = ''/authenticate-codestory'',
      query = ''data=eyJ0'', fragment = ''''\<rparr>"

definition callback_no_data :: uri where
  "callback_no_data =
     \<lparr>scheme = ''aide'', authority = ''codestory'', path = ''/authenticate-codestory'',
      query = ''state=uuid-0'', fragment = ''''\<rparr>"

section \<open>Concrete states and environments\<close>

text \<open>
  The scenario of the specification: the stored session \<^verbatim>\<open>{id:"a", refreshToken:"r1"}\<close>,
  a refresh endpoint that answers \<^verbatim>\<open>{access_token:"A2", refresh_token:"r2"}\<close> and a
  profile endpoint that answers with a user and waitlist position \<open>0\<close>. In \<open>env0\<close>
  the callback URI carries a \<^verbatim>\<open>state\<close> that is not the identifier of the attempt.
  The other environments reject the refresh, fail the profile request, deliver
  a callback without \<^verbatim>\<open>data\<close>, and reject the opening of the authorization URL.
\<close>

definition st0 :: state where
  "st0 = \<lparr>subscriptionsAPIBase = ''https://api.codestory.ai'',
          websiteBase = ''https://aide.dev'',
          m_pendingStates = [],
          m_session = JObj [(''id'', JStr ''a''), (''refreshToken'', JStr ''r1'')],
          secrets = [SESSION_SECRET_KEY \<mapsto> ''{\"id\":\"a\",\"refreshToken\":\"r1\"}''],
          notifications = [], fired = [], requests = [], opened = [], uuid_calls = 0\<rparr>"

definition env0 :: env where
  "env0 = \<lparr>fetch = (\<lambda>req.
              if url req = ''https://api.codestory.ai/v1/auth/refresh''
              then Inr \<lparr>ok = True, body = Inr ''{\"access_token\":\"A2\",\"refresh_token\":\"r2\"}''\<rparr>
              else Inr \<lparr>ok = True, body = Inr ''{\"user\":{\"name\":\"u\"},\"waitlistPosition\":0}''\<rparr>),
           generateUuid = (\<lambda>n. ''uuid-'' @ digits n),
           opener_open = (\<lambda>u. Inr True),
           race = HandleURL callback_other_state,
           decodeBase64 = (\<lambda>s. Inr ''{\"access_token\":\"A1\",\"refresh_token\":\"r1\"}''),
           string_gt_zero = (\<lambda>s. False)\<rparr>"


definition env_profile_down :: env where
  "env_profile_down = env0\<lparr>fetch := (\<lambda>req.
       if url req = ''https://api.codestory.ai/v1/auth/refresh''
       then Inr \<lparr>ok = True, body = Inr ''{\"access_token\":\"A2\",\"refresh_token\":\"r2\"}''\<rparr>
       else Inl (HostFailure ''network''))\<rparr>"

definition env_no_data :: env where
  "env_no_data = env0\<lparr>race := HandleURL callback_no_data\<rparr>"

definition env_open_rejects :: env where
  "env_open_rejects = env0\<lparr>opener_open := (\<lambda>u. Inl (HostFailure ''cannot open''))\<rparr>"

definition session_a :: jsval where
  "session_a = JObj [(''id'', JStr ''a''), (''accessToken'', JStr ''A2''), (''refreshToken'', JStr ''r2''),
     (''account'', JObj [(''name'', JStr ''u'')]), (''waitlistPosition'', JNum 0)]"

definition session_created :: jsval where
  "session_created = JObj [(''id'', JStr ''uuid-1''), (''accessToken'', JStr ''A1''),
     (''refreshToken'', JStr ''r1''), (''account'', JObj [(''name'', JStr ''u'')]),
     (''waitlistPosition'', JNum 0)]"

section \<open>The JSON round trip\<close>

declare digits.simps [simp del]

lemma digit_val_digit_char: "d < 10 \<Longrightarrow> digit_val (digit_char d) = d"
proof -
  assume "d < 10"
  then have "d = 0 \<or> d = 1 \<or> d = 2 \<or> d = 3 \<or> d = 4 \<or> d = 5 \<or> d = 6 \<or> d = 7 \<or> d = 8 \<or> d = 9"
    by arith
  then show ?thesis
    by (elim disjE) (simp_all add: digit_val_def digit_char_def)
qed

lemma is_digit_digit_char: "d < 10 \<Longrightarrow> is_digit (digit_char d)"
proof -
  assume "d < 10"
  then have "d = 0 \<or> d = 1 \<or> d = 2 \<or> d = 3 \<or> d = 4 \<or> d = 5 \<or> d = 6 \<or> d = 7 \<or> d = 8 \<or> d = 9"
    by arith
  then show ?thesis
    by (elim disjE) (simp_all add: is_digit_def digit_char_def)
qed

lemma digit_char_zero: "d < 10 \<Longrightarrow> digit_char d = CHR ''0'' \<longleftrightarrow> d = 0"
proof -
  assume "d < 10"
  then have "d = 0 \<or> d = 1 \<or> d = 2 \<or> d = 3 \<or> d = 4 \<or> d = 5 \<or> d = 6 \<or> d = 7 \<or> d = 8 \<or> d = 9"
    by arith
  then show ?thesis
    by (elim disjE) (simp_all add: digit_char_def)
qed

lemma digits_not_Nil: "digits n \<noteq> []"
  by (subst digits.simps) simp

lemma digits_all_digit: "c \<in> set (digits n) \<Longrightarrow> is_digit c"
proof (induction n arbitrary: c rule: digits.induct)
  case (1 n)
  show ?case
  proof (cases "n < 10")
    case True
    with "1.prems" show ?thesis
      by (subst (asm) digits.simps) (simp add: is_digit_digit_char)
  next
    case False
    with "1.prems" have "c \<in> set (digits (n div 10)) \<or> c = digit_char (n mod 10)"
      by (subst (asm) digits.simps) auto
    with "1.IH" False show ?thesis
      by (auto simp: is_digit_digit_char)
  qed
qed

lemma nat_of_digits_snoc: "nat_of_digits (ds @ [c]) = 10 * nat_of_digits ds + digit_val c"
  by (simp add: nat_of_digits_def)

lemma nat_of_digits_digits: "nat_of_digits (digits n) = n"
proof (induction n rule: digits.induct)
  case (1 n)
  show ?case
  proof (cases "n < 10")
    case True
    then show ?thesis
      by (subst digits.simps) (simp add: nat_of_digits_def digit_val_digit_char)
  next
    case False
    with "1.IH" show ?thesis
      by (subst digits.simps) (simp add: nat_of_digits_snoc digit_val_digit_char)
  qed
qed

lemma hd_digits: "0 < n \<Longrightarrow> hd (digits n) \<noteq> CHR ''0''"
proof (induction n rule: digits.induct)
  case (1 n)
  show ?case
  proof (cases "n < 10")
    case True
    with "1.prems" show ?thesis
      by (subst digits.simps) (simp add: digit_char_zero)
  next
    case False
    then have "0 < n div 10" by simp
    with "1.IH" False have "hd (digits (n div 10)) \<noteq> CHR ''0''" by simp
    with False show ?thesis
      by (subst digits.simps) (simp add: digits_not_Nil)
  qed
qed

lemma digits_zero: "digits 0 = ''0''"
  by (subst digits.simps) (simp add: digit_char_def)

lemma digits_no_leading_zero: "hd (digits n) = CHR ''0'' \<Longrightarrow> tl (digits n) = []"
  by (cases "n = 0") (auto simp: digits_zero dest: hd_digits)

lemma takeWhile_digits: "ok_rest rest \<Longrightarrow> takeWhile is_digit (digits n @ rest) = digits n"
  by (cases rest) (auto simp: ok_rest_def takeWhile_append digits_all_digit)

lemma dropWhile_digits: "ok_rest rest \<Longrightarrow> dropWhile is_digit (digits n @ rest) = rest"
  by (cases rest) (auto simp: ok_rest_def dropWhile_append digits_all_digit)

lemma hd_digits_not_minus: "hd (digits n) \<noteq> CHR ''-''"
proof -
  have "hd (digits n) \<in> set (digits n)" by (simp add: digits_not_Nil)
  then have "is_digit (hd (digits n))" by (rule digits_all_digit)
  then show ?thesis by (auto simp: is_digit_def)
qed

lemma parse_number_show_int:
  assumes "ok_rest rest"
  shows "parse_number (show_int i @ rest) = Some (JNum i, rest)"
proof (cases "i < 0")
  case True
  then have pos: "0 < nat (- i)" by simp
  have "hd (digits (nat (- i))) \<noteq> CHR ''0''" using pos by (rule hd_digits)
  with True assms show ?thesis
    by (simp add: parse_number_def show_int_def takeWhile_digits dropWhile_digits
        digits_not_Nil nat_of_digits_digits Let_def)
next
  case False
  have nm: "hd (digits (nat i) @ rest) \<noteq> CHR ''-''"
    using hd_digits_not_minus [of "nat i"] by (simp add: digits_not_Nil)
  from False assms show ?thesis
    using digits_no_leading_zero [of "nat i"] nm
    by (auto simp: parse_number_def show_int_def takeWhile_digits dropWhile_digits
        digits_not_Nil nat_of_digits_digits Let_def)
qed

lemma hex_val_hex_char: "d < 16 \<Longrightarrow> hex_val (hex_char d) = Some d"
proof -
  assume "d < 16"
  then have "d = 0 \<or> d = 1 \<or> d = 2 \<or> d = 3 \<or> d = 4 \<or> d = 5 \<or> d = 6 \<or> d = 7 \<or> d = 8
      \<or> d = 9 \<or> d = 10 \<or> d = 11 \<or> d = 12 \<or> d = 13 \<or> d = 14 \<or> d = 15"
    by arith
  then show ?thesis
    by (elim disjE) (simp_all add: hex_val_def hex_char_def)
qed

lemma hex4_control:
  assumes "n < 32"
  shows "hex4 (CHR ''0'') (CHR ''0'') (hex_char (n div 16)) (hex_char (n mod 16)) = Some n"
proof -
  have "n div 16 < 16" using assms by simp
  moreover have "n mod 16 < 16" by simp
  moreover have "hex_val (CHR ''0'') = Some 0" by (simp add: hex_val_def)
  ultimately show ?thesis
    by (simp add: hex4_def hex_val_hex_char)
qed

lemma parse_string_escape_char:
  "parse_string (escape_char c @ t) = cons_fst c (parse_string t)"
proof -
  consider (q) "c = dquote" | (b) "c = bslash"
    | (s) "c = CHR 0x08 \<or> c = CHR 0x0C \<or> c = CHR 0x0A \<or> c = CHR 0x0D \<or> c = CHR 0x09"
    | (u) "c \<noteq> dquote" "c \<noteq> bslash" "c \<noteq> CHR 0x08" "c \<noteq> CHR 0x0C" "c \<noteq> CHR 0x0A"
        "c \<noteq> CHR 0x0D" "c \<noteq> CHR 0x09" "(of_char c :: nat) < 32"
    | (p) "c \<noteq> dquote" "c \<noteq> bslash" "\<not> (of_char c :: nat) < 32"
    by (cases "(of_char c :: nat) < 32") auto
  then show ?thesis
  proof cases
    case q
    then show ?thesis by (simp add: escape_char_def unescape_def)
  next
    case b
    then show ?thesis by (simp add: escape_char_def unescape_def)
  next
    case s
    then show ?thesis by (elim disjE) (simp_all add: escape_char_def unescape_def)
  next
    case u
    then show ?thesis
      by (simp add: escape_char_def hex4_control)
  next
    case p
    then have "escape_char c = [c]"
      by (auto simp: escape_char_def)
    with p show ?thesis by simp
  qed
qed

lemma parse_string_escaped:
  "parse_string (concat (map escape_char s) @ dquote # rest) = Some (s, rest)"
  by (induction s) (simp_all add: parse_string_escape_char cons_fst_def)

lemma update_fresh: "k \<notin> fst ` set kvs \<Longrightarrow> AList.update k v kvs = kvs @ [(k, v)]"
  by (induction kvs) auto

lemma foldl_update_distinct:
  "distinct (map fst (acc @ ms)) \<Longrightarrow>
     foldl (\<lambda>kvs (k, v). AList.update k v kvs) acc ms = acc @ ms"
proof (induction ms arbitrary: acc)
  case Nil
  then show ?case by simp
next
  case (Cons m ms)
  obtain k v where m: "m = (k, v)" by (cases m)
  from Cons.prems m have fresh: "k \<notin> fst ` set acc" by auto
  from Cons.prems have "distinct (map fst ((acc @ [m]) @ ms))" by simp
  then have "foldl (\<lambda>kvs (k, v). AList.update k v kvs) (acc @ [m]) ms = (acc @ [m]) @ ms"
    by (rule Cons.IH)
  with fresh m show ?case by (simp add: update_fresh)
qed

lemma mk_obj_distinct: "distinct (map fst ms) \<Longrightarrow> mk_obj ms = JObj ms"
  using foldl_update_distinct [of "[]" ms] by (simp add: mk_obj_def)

lemma ok_rest_simps [simp]:
  "ok_rest []" "ok_rest (CHR '','' # r)" "ok_rest (CHR '']'' # r)" "ok_rest (CHR ''}'' # r)"
  by (simp_all add: ok_rest_def is_digit_def)

lemma skip_ws_quote [simp]: "skip_ws (quote s @ r) = quote s @ r"
  by (simp add: quote_def is_ws_def)

lemma show_int_head:
  "\<exists>c cs. show_int i = c # cs \<and> (c = CHR ''-'' \<or> is_digit c)"
proof (cases "i < 0")
  case True
  then show ?thesis by (simp add: show_int_def)
next
  case False
  obtain c cs where d: "digits (nat i) = c # cs"
    using digits_not_Nil [of "nat i"] by (cases "digits (nat i)") auto
  then have "c \<in> set (digits (nat i))" by simp
  then have "is_digit c" by (rule digits_all_digit)
  with False d show ?thesis by (simp add: show_int_def)
qed

lemma parse_value_number:
  assumes "ok_rest rest"
  shows "parse_value (Suc n) (show_int i @ rest) = Some (JNum i, rest)"
proof -
  obtain c cs where sc: "show_int i = c # cs" and hd: "c = CHR ''-'' \<or> is_digit c"
    using show_int_head by blast
  from hd have "\<not> is_ws c" "c \<noteq> CHR ''n''" "c \<noteq> CHR ''t''" "c \<noteq> CHR ''f''" "c \<noteq> dquote"
    "c \<noteq> CHR ''[''" "c \<noteq> CHR ''{''"
    by (auto simp: is_ws_def is_digit_def)
  then have "parse_value (Suc n) (show_int i @ rest) = parse_number (c # cs @ rest)"
    by (simp add: sc)
  also have "\<dots> = parse_number (show_int i @ rest)" by (simp add: sc)
  also have "\<dots> = Some (JNum i, rest)" using assms by (rule parse_number_show_int)
  finally show ?thesis .
qed

lemma parse_elems_printed:
  assumes IH: "\<And>v n rest. v \<in> set vs \<Longrightarrow> json_value v \<Longrightarrow> ok_rest rest \<Longrightarrow>
      length (stringify_val v) \<le> n \<Longrightarrow> parse_value n (stringify_val v @ rest) = Some (v, rest)"
    and "\<forall>v \<in> set vs. json_value v"
    and "vs \<noteq> []"
    and "length (commas (map stringify_val vs)) < n"
  shows "parse_elems n (commas (map stringify_val vs) @ CHR '']'' # rest) = Some (vs, rest)"
  using assms
proof (induction vs arbitrary: n)
  case Nil
  then show ?case by simp
next
  case (Cons v vs)
  from Cons.prems(4) obtain m where n: "n = Suc m" by (cases n) auto
  show ?case
  proof (cases vs)
    case Nil
    with Cons.prems n have "parse_value m (stringify_val v @ CHR '']'' # rest) = Some (v, CHR '']'' # rest)"
      by (intro Cons.prems(1)) auto
    with Nil n show ?thesis by (simp add: is_ws_def)
  next
    case (Cons w ws)
    let ?tail = "commas (map stringify_val vs)"
    have printed: "commas (map stringify_val (v # vs)) = stringify_val v @ CHR '','' # ?tail"
      using Cons by simp
    from Cons.prems n printed
    have "parse_value m (stringify_val v @ CHR '','' # ?tail @ CHR '']'' # rest)
        = Some (v, CHR '','' # ?tail @ CHR '']'' # rest)"
      by (intro Cons.prems(1)) auto
    moreover have "parse_elems m (?tail @ CHR '']'' # rest) = Some (vs, rest)"
      using Cons.prems n printed Cons by (intro Cons.IH) auto
    ultimately show ?thesis
      using n printed by (simp add: is_ws_def cons_fst_def)
  qed
qed

lemma parse_members_step:
  assumes "parse_value m (stringify_val v @ r) = Some (v, r)"
  shows "parse_members (Suc m) (quote k @ CHR '':'' # stringify_val v @ r) =
     (case skip_ws r of
        [] \<Rightarrow> None
      | c3 # r4 \<Rightarrow>
          if c3 = CHR '','' then cons_fst (k, v) (parse_members m r4)
          else if c3 = CHR ''}'' then Some ([(k, v)], r4)
          else None)"
  using assms by (simp add: quote_def parse_string_escaped is_ws_def)

lemma parse_members_printed:
  assumes IH: "\<And>kv n rest. kv \<in> set kvs \<Longrightarrow> json_value (snd kv) \<Longrightarrow> ok_rest rest \<Longrightarrow>
      length (stringify_val (snd kv)) \<le> n \<Longrightarrow>
      parse_value n (stringify_val (snd kv) @ rest) = Some (snd kv, rest)"
    and "\<forall>kv \<in> set kvs. json_value (snd kv)"
    and "kvs \<noteq> []"
    and "length (commas (map member_text kvs)) < n"
  shows "parse_members n (commas (map member_text kvs) @ CHR ''}'' # rest) = Some (kvs, rest)"
  using assms
proof (induction kvs arbitrary: n)
  case Nil
  then show ?case by simp
next
  case (Cons kv kvs)
  from Cons.prems(4) obtain m where n: "n = Suc m" by (cases n) auto
  obtain k v where kv: "kv = (k, v)" by (cases kv)
  show ?case
  proof (cases kvs)
    case Nil
    with Cons.prems n kv
    have "parse_value m (stringify_val (snd kv) @ CHR ''}'' # rest) = Some (snd kv, CHR ''}'' # rest)"
      by (intro Cons.prems(1)) (auto simp: member_text_def)
    with Nil n kv show ?thesis
      by (simp add: member_text_def parse_members_step is_ws_def del: parse_members.simps)
  next
    case (Cons w ws)
    let ?tail = "commas (map member_text kvs)"
    have printed: "commas (map member_text (kv # kvs)) = quote k @ CHR '':'' # stringify_val v @ CHR '','' # ?tail"
      using Cons kv by (simp add: member_text_def)
    from Cons.prems n printed kv
    have "parse_value m (stringify_val (snd kv) @ CHR '','' # ?tail @ CHR ''}'' # rest)
        = Some (snd kv, CHR '','' # ?tail @ CHR ''}'' # rest)"
      by (intro Cons.prems(1)) auto
    moreover have "parse_members m (?tail @ CHR ''}'' # rest) = Some (kvs, rest)"
      using Cons.prems n printed Cons by (intro Cons.IH) auto
    ultimately show ?thesis
      using n printed kv by (simp add: parse_members_step is_ws_def cons_fst_def del: parse_members.simps)
  qed
qed

lemma commas_member_text:
  "commas (map (\<lambda>(k, v). quote k @ CHR '':'' # stringify_val v) kvs) = commas (map member_text kvs)"
proof -
  have "(\<lambda>(k, v). quote k @ CHR '':'' # stringify_val v) = member_text"
    by (auto simp: member_text_def fun_eq_iff)
  then show ?thesis by simp
qed

lemma filter_defined:
  "\<forall>kv \<in> set kvs. json_value (snd kv) \<Longrightarrow> filter (\<lambda>(k, v). v \<noteq> JUndefined) kvs = kvs"
  by (induction kvs) auto

lemma commas_hd:
  "xs \<noteq> [] \<Longrightarrow> \<forall>x \<in> set xs. x \<noteq> [] \<Longrightarrow> commas xs \<noteq> [] \<and> hd (commas xs) = hd (hd xs)"
  by (induction xs rule: commas.induct) auto

lemma stringify_val_head:
  "json_value v \<Longrightarrow> \<exists>c cs. stringify_val v = c # cs \<and> \<not> is_ws c \<and> c \<noteq> CHR '']'' \<and> c \<noteq> CHR ''}''"
proof (cases v)
  case (JNum i)
  obtain c cs where "show_int i = c # cs" "c = CHR ''-'' \<or> is_digit c"
    using show_int_head by blast
  with JNum show ?thesis by (auto simp: is_ws_def is_digit_def)
qed (auto simp: is_ws_def quote_def)

lemma parse_value_printed:
  "json_value v \<Longrightarrow> ok_rest rest \<Longrightarrow> length (stringify_val v) \<le> n \<Longrightarrow>
     parse_value n (stringify_val v @ rest) = Some (v, rest)"
proof (induction v arbitrary: n rest)
  case JUndefined
  then show ?case by simp
next
  case JNull
  then obtain m where "n = Suc m" by (cases n) auto
  then show ?case by (simp add: is_ws_def strip_prefix_def)
next
  case (JBool b)
  then obtain m where "n = Suc m" by (cases n) (auto split: if_splits)
  then show ?case by (simp add: is_ws_def strip_prefix_def)
next
  case (JNum i)
  have "show_int i \<noteq> []" using show_int_head [of i] by auto
  with JNum.prems obtain m where "n = Suc m" by (cases n) auto
  with JNum.prems show ?case by (simp add: parse_value_number del: parse_value.simps)
next
  case (JStr s)
  then obtain m where "n = Suc m" by (cases n) (auto simp: quote_def)
  then show ?case
    by (simp add: quote_def is_ws_def parse_string_escaped map_fst_def)
next
  case (JArr vs)
  then obtain m where n: "n = Suc m" by (cases n) auto
  show ?case
  proof (cases "vs = []")
    case True
    with n show ?thesis by (simp add: is_ws_def)
  next
    case False
    let ?body = "commas (map stringify_val vs)"
    have elems: "parse_elems m (?body @ CHR '']'' # rest) = Some (vs, rest)"
    proof (rule parse_elems_printed)
      show "\<forall>v \<in> set vs. json_value v" using JArr.prems by simp
      show "vs \<noteq> []" by fact
      show "length ?body < m" using JArr.prems n by simp
    qed (rule JArr.IH)
    obtain c cs where hd: "stringify_val (hd vs) = c # cs" "\<not> is_ws c" "c \<noteq> CHR '']''"
      using stringify_val_head [of "hd vs"] JArr.prems False by auto
    have "\<forall>x \<in> set (map stringify_val vs). x \<noteq> []"
      using stringify_val_head JArr.prems by fastforce
    with False hd obtain bs where body: "?body = c # bs"
      using commas_hd [of "map stringify_val vs"] by (cases ?body) (auto simp: hd_map)
    have "parse_value (Suc m) (CHR ''['' # (c # bs) @ CHR '']'' # rest) = Some (JArr vs, rest)"
      using hd elems unfolding body by (simp add: is_ws_def map_fst_def)
    with n body show ?thesis by simp
  qed
next
  case (JObj kvs)
  then obtain m where n: "n = Suc m" by (cases n) auto
  have filt: "filter (\<lambda>(k, v). v \<noteq> JUndefined) kvs = kvs"
    using JObj.prems by (intro filter_defined) simp
  have dist: "distinct (map fst kvs)" using JObj.prems by simp
  let ?body = "commas (map member_text kvs)"
  have printed: "stringify_val (JObj kvs) = CHR ''{'' # ?body @ ''}''"
    by (simp add: filt commas_member_text)
  show ?case
  proof (cases "kvs = []")
    case True
    with n show ?thesis by (simp add: is_ws_def)
  next
    case False
    have members: "parse_members m (?body @ CHR ''}'' # rest) = Some (kvs, rest)"
    proof (rule parse_members_printed)
      show "\<forall>kv \<in> set kvs. json_value (snd kv)" using JObj.prems by simp
      show "kvs \<noteq> []" by fact
      show "length ?body < m" using JObj.prems n unfolding printed by simp
    next
      fix kv n rest
      assume a: "kv \<in> set kvs" and b: "json_value (snd kv)" and c: "ok_rest rest"
        and d: "length (stringify_val (snd kv)) \<le> n"
      have "snd kv \<in> Basic_BNFs.snds kv" by (cases kv) simp
      from JObj.IH [OF a this b c d]
      show "parse_value n (stringify_val (snd kv) @ rest) = Some (snd kv, rest)" .
    qed
    have "\<forall>x \<in> set (map member_text kvs). x \<noteq> []"
      by (simp add: member_text_def)
    with False obtain bs where body: "?body = dquote # bs"
      using commas_hd [of "map member_text kvs"]
      by (cases ?body) (auto simp: hd_map member_text_def quote_def)
    have "parse_value (Suc m) (CHR ''{'' # (dquote # bs) @ CHR ''}'' # rest) = Some (JObj kvs, rest)"
      using members dist unfolding body by (simp add: is_ws_def map_fst_def mk_obj_distinct)
    with n body printed show ?thesis by simp
  qed
qed

lemma JSON_parse_stringify:
  assumes "json_value v"
  shows "JSON_parse (stringify_val v) = Some v"
proof -
  have "parse_value (2 * length (stringify_val v)) (stringify_val v @ []) = Some (v, [])"
    using assms by (intro parse_value_printed) simp_all
  then show ?thesis by (simp add: JSON_parse_def)
qed

section \<open>The bound of the parser\<close>

lemma skip_ws_length: "length (skip_ws s) \<le> length s"
  by (induction s) auto

lemma skip_ws_Cons_length: "skip_ws s = c # r \<Longrightarrow> length r < length s"
  using skip_ws_length [of s] by simp

lemma cons_fst_Some: "cons_fst x p = Some (ys, r) \<Longrightarrow> \<exists>xs. p = Some (xs, r)"
  by (auto simp: cons_fst_def split: option.splits)

lemma map_fst_Some: "map_fst f p = Some (y, r) \<Longrightarrow> \<exists>x. p = Some (x, r)"
  by (auto simp: map_fst_def split: option.splits)

lemma parse_string_length: "parse_string s = Some (x, r) \<Longrightarrow> length r < length s"
proof (induction s arbitrary: x r rule: parse_string.induct)
  case 1
  then show ?case by simp
next
  case (2 c cs)
  then show ?case
    by (auto split: if_splits list.splits option.splits dest!: cons_fst_Some) fastforce+
qed

lemma parse_number_length: "parse_number s = Some (v, r) \<Longrightarrow> length r < length s"
proof -
  assume a: "parse_number s = Some (v, r)"
  let ?s1 = "if s \<noteq> [] \<and> hd s = CHR ''-'' then tl s else s"
  from a have r: "r = dropWhile is_digit ?s1" and ne: "takeWhile is_digit ?s1 \<noteq> []"
    by (auto simp: parse_number_def Let_def split: if_splits)
  have "length (takeWhile is_digit ?s1) + length (dropWhile is_digit ?s1) = length ?s1"
    by (metis length_append takeWhile_dropWhile_id)
  with ne have "length (dropWhile is_digit ?s1) < length ?s1"
    by (cases "takeWhile is_digit ?s1") auto
  moreover have "length ?s1 \<le> length s" by (cases s) auto
  ultimately show ?thesis using r by simp
qed

lemma strip_prefix_length: "strip_prefix p s = Some r \<Longrightarrow> length r \<le> length s"
  by (auto simp: strip_prefix_def split: if_splits)

lemma parse_value_Suc:
  "parse_value (Suc n) s = (case skip_ws s of [] \<Rightarrow> None | c # r \<Rightarrow> value_step n c r)"
  by (simp add: value_step_def split: list.splits)

lemma value_step_length:
  assumes elems: "\<And>s vs r. parse_elems n s = Some (vs, r) \<Longrightarrow> length r < length s"
    and members: "\<And>s ms r. parse_members n s = Some (ms, r) \<Longrightarrow> length r < length s"
    and step: "value_step n c t = Some (v, r)"
  shows "length r \<le> length t"
proof -
  consider (lit) "c = CHR ''n'' \<or> c = CHR ''t'' \<or> c = CHR ''f''"
    | (str) "c = dquote"
    | (arr) "c = CHR ''[''"
    | (obj) "c = CHR ''{''"
    | (num) "c \<noteq> CHR ''n''" "c \<noteq> CHR ''t''" "c \<noteq> CHR ''f''" "c \<noteq> dquote" "c \<noteq> CHR ''[''" "c \<noteq> CHR ''{''"
    by blast
  then show ?thesis
  proof cases
    case lit
    with step show ?thesis
      by (auto simp: value_step_def dest: strip_prefix_length)
  next
    case str
    with step obtain x where "parse_string t = Some (x, r)"
      by (auto simp: value_step_def dest: map_fst_Some)
    then show ?thesis using parse_string_length by fastforce
  next
    case arr
    with step obtain d r1 where d: "skip_ws t = d # r1"
      by (cases "skip_ws t") (auto simp: value_step_def)
    then have l: "length (d # r1) \<le> length t" using skip_ws_length [of t] by simp
    show ?thesis
    proof (cases "d = CHR '']''")
      case True
      with step arr d l show ?thesis by (simp add: value_step_def)
    next
      case False
      with step arr d obtain vs where "parse_elems n (d # r1) = Some (vs, r)"
        by (auto simp: value_step_def dest: map_fst_Some)
      then have "length r < length (d # r1)" by (rule elems)
      with l show ?thesis by simp
    qed
  next
    case obj
    with step obtain d r1 where d: "skip_ws t = d # r1"
      by (cases "skip_ws t") (auto simp: value_step_def)
    then have l: "length (d # r1) \<le> length t" using skip_ws_length [of t] by simp
    show ?thesis
    proof (cases "d = CHR ''}''")
      case True
      with step obj d l show ?thesis by (simp add: value_step_def)
    next
      case False
      with step obj d obtain ms where "parse_members n (d # r1) = Some (ms, r)"
        by (auto simp: value_step_def dest: map_fst_Some)
      then have "length r < length (d # r1)" by (rule members)
      with l show ?thesis by simp
    qed
  next
    case num
    with step have "parse_number (c # t) = Some (v, r)" by (simp add: value_step_def)
    then have "length r < length (c # t)" by (rule parse_number_length)
    then show ?thesis by simp
  qed
qed

lemma parse_elems_Suc_length:
  assumes val: "\<And>s v r. parse_value n s = Some (v, r) \<Longrightarrow> length r < length s"
    and elems: "\<And>s vs r. parse_elems n s = Some (vs, r) \<Longrightarrow> length r < length s"
    and run: "parse_elems (Suc n) s = Some (vs, r)"
  shows "length r < length s"
proof -
  from run obtain v r0 where v: "parse_value n s = Some (v, r0)"
    by (cases "parse_value n s") auto
  then have l0: "length r0 < length s" by (rule val)
  from run v obtain c r1 where c: "skip_ws r0 = c # r1"
    by (cases "skip_ws r0") auto
  then have l1: "length r1 < length r0" by (rule skip_ws_Cons_length)
  show ?thesis
  proof (cases "c = CHR '',''")
    case True
    with run v c obtain vs' where "parse_elems n r1 = Some (vs', r)"
      by (auto dest: cons_fst_Some)
    then have "length r < length r1" by (rule elems)
    with l0 l1 show ?thesis by simp
  next
    case False
    with run v c have "r = r1" by (simp split: if_splits)
    with l0 l1 show ?thesis by simp
  qed
qed

lemma parse_members_Suc_length:
  assumes val: "\<And>s v r. parse_value n s = Some (v, r) \<Longrightarrow> length r < length s"
    and members: "\<And>s ms r. parse_members n s = Some (ms, r) \<Longrightarrow> length r < length s"
    and run: "parse_members (Suc n) s = Some (ms, r)"
  shows "length r < length s"
proof -
  from run obtain c t where c: "skip_ws s = c # t" "c = dquote"
    by (cases "skip_ws s") (auto split: if_splits)
  then have lt: "length t < length s" using skip_ws_Cons_length by blast
  from run c obtain k r1 where k: "parse_string t = Some (k, r1)"
    by (cases "parse_string t") auto
  then have l1: "length r1 < length t" by (rule parse_string_length)
  from run c k obtain c1 r2 where c1: "skip_ws r1 = c1 # r2" "c1 = CHR '':''"
    by (cases "skip_ws r1") (auto split: if_splits)
  then have l2: "length r2 < length r1" using skip_ws_Cons_length by blast
  from run c k c1 obtain v r3 where v: "parse_value n r2 = Some (v, r3)"
    by (cases "parse_value n r2") auto
  then have l3: "length r3 < length r2" by (rule val)
  from run c k c1 v obtain c3 r4 where c3: "skip_ws r3 = c3 # r4"
    by (cases "skip_ws r3") auto
  then have l4: "length r4 < length r3" by (rule skip_ws_Cons_length)
  show ?thesis
  proof (cases "c3 = CHR '',''")
    case True
    with run c k c1 v c3 obtain ms' where "parse_members n r4 = Some (ms', r)"
      by (auto dest: cons_fst_Some)
    then have "length r < length r4" by (rule members)
    with lt l1 l2 l3 l4 show ?thesis by simp
  next
    case False
    with run c k c1 v c3 have "r = r4" by (simp split: if_splits)
    with lt l1 l2 l3 l4 show ?thesis by simp
  qed
qed

lemma parse_length:
  "(\<forall>s v r. parse_value n s = Some (v, r) \<longrightarrow> length r < length s)
   \<and> (\<forall>s vs r. parse_elems n s = Some (vs, r) \<longrightarrow> length r < length s)
   \<and> (\<forall>s ms r. parse_members n s = Some (ms, r) \<longrightarrow> length r < length s)"
proof (induction n)
  case 0
  then show ?case by simp
next
  case (Suc n)
  have val: "\<And>s v r. parse_value n s = Some (v, r) \<Longrightarrow> length r < length s"
    and elems: "\<And>s vs r. parse_elems n s = Some (vs, r) \<Longrightarrow> length r < length s"
    and members: "\<And>s ms r. parse_members n s = Some (ms, r) \<Longrightarrow> length r < length s"
    using Suc by blast+
  have "length r < length s" if run: "parse_value (Suc n) s = Some (v, r)" for s v r
  proof -
    from run obtain c t where c: "skip_ws s = c # t"
      by (cases "skip_ws s") (auto simp: parse_value_Suc simp del: parse_value.simps)
    with run have "value_step n c t = Some (v, r)"
      by (simp add: parse_value_Suc del: parse_value.simps)
    then have "length r \<le> length t"
      using elems members by (intro value_step_length [of n c t v r]) blast+
    with skip_ws_Cons_length [OF c] show ?thesis by simp
  qed
  moreover have "length r < length s" if "parse_elems (Suc n) s = Some (vs, r)" for s vs r
    using that val elems by (intro parse_elems_Suc_length [of n s vs r]) blast+
  moreover have "length r < length s" if "parse_members (Suc n) s = Some (ms, r)" for s ms r
    using that val members by (intro parse_members_Suc_length [of n s ms r]) blast+
  ultimately show ?case by blast
qed

lemma parse_value_length: "parse_value n s = Some (v, r) \<Longrightarrow> length r < length s"
  using parse_length by blast

lemma value_step_fuel:
  assumes elems: "\<And>s. 2 * length s + 1 \<le> n \<Longrightarrow> parse_elems (Suc n) s = parse_elems n s"
    and members: "\<And>s. 2 * length s + 1 \<le> n \<Longrightarrow> parse_members (Suc n) s = parse_members n s"
    and "2 * length t + 1 \<le> n"
  shows "value_step (Suc n) c t = value_step n c t"
proof -
  have "parse_elems (Suc n) (d # r1) = parse_elems n (d # r1)"
    and "parse_members (Suc n) (d # r1) = parse_members n (d # r1)"
    if "skip_ws t = d # r1" for d r1
  proof -
    from that have "length (d # r1) \<le> length t" using skip_ws_length [of t] by simp
    with assms(3) have "2 * length (d # r1) + 1 \<le> n" by simp
    then show "parse_elems (Suc n) (d # r1) = parse_elems n (d # r1)"
      and "parse_members (Suc n) (d # r1) = parse_members n (d # r1)"
      by (rule elems, rule members)
  qed
  then show ?thesis
    by (simp add: value_step_def split: list.splits del: parse_elems.simps parse_members.simps)
qed

lemma parse_elems_fuel:
  assumes val: "\<And>s. 2 * length s \<le> n \<Longrightarrow> parse_value (Suc n) s = parse_value n s"
    and elems: "\<And>s. 2 * length s + 1 \<le> n \<Longrightarrow> parse_elems (Suc n) s = parse_elems n s"
    and "2 * length s + 1 \<le> Suc n"
  shows "parse_elems (Suc (Suc n)) s = parse_elems (Suc n) s"
proof -
  have v: "parse_value (Suc n) s = parse_value n s" using assms(3) by (intro val) simp
  show ?thesis
  proof (cases "parse_value n s")
    case None
    with v show ?thesis by (simp del: parse_value.simps)
  next
    case (Some p)
    obtain x r0 where p: "p = (x, r0)" by (cases p)
    with Some have l0: "length r0 < length s" using parse_value_length by blast
    have "parse_elems (Suc n) r1 = parse_elems n r1" if "skip_ws r0 = c # r1" for c r1
    proof -
      from that have "length r1 < length r0" by (rule skip_ws_Cons_length)
      with l0 assms(3) show ?thesis by (intro elems) simp
    qed
    with v Some p show ?thesis
      by (simp split: list.splits del: parse_value.simps parse_elems.simps
          add: parse_elems.simps(2) [of "Suc n"] parse_elems.simps(2) [of n])
  qed
qed

lemma parse_members_fuel:
  assumes val: "\<And>s. 2 * length s \<le> n \<Longrightarrow> parse_value (Suc n) s = parse_value n s"
    and members: "\<And>s. 2 * length s + 1 \<le> n \<Longrightarrow> parse_members (Suc n) s = parse_members n s"
    and "2 * length s + 1 \<le> Suc n"
  shows "parse_members (Suc (Suc n)) s = parse_members (Suc n) s"
proof -
  have step: "(case parse_value (Suc n) r2 of
                 None \<Rightarrow> None
               | Some (v, r3) \<Rightarrow>
                   (case skip_ws r3 of
                      [] \<Rightarrow> None
                    | c3 # r4 \<Rightarrow>
                        if c3 = CHR '','' then cons_fst (k, v) (parse_members (Suc n) r4)
                        else if c3 = CHR ''}'' then Some ([(k, v)], r4)
                        else None))
            = (case parse_value n r2 of
                 None \<Rightarrow> None
               | Some (v, r3) \<Rightarrow>
                   (case skip_ws r3 of
                      [] \<Rightarrow> None
                    | c3 # r4 \<Rightarrow>
                        if c3 = CHR '','' then cons_fst (k, v) (parse_members n r4)
                        else if c3 = CHR ''}'' then Some ([(k, v)], r4)
                        else None))"
    if l2: "length r2 < length s" for r2 k
  proof -
    have v: "parse_value (Suc n) r2 = parse_value n r2" using assms(3) l2 by (intro val) simp
    show ?thesis
    proof (cases "parse_value n r2")
      case None
      with v show ?thesis by (simp del: parse_value.simps)
    next
      case (Some p)
      obtain x r3 where p: "p = (x, r3)" by (cases p)
      with Some have l3: "length r3 < length r2" using parse_value_length by blast
      have "parse_members (Suc n) r4 = parse_members n r4" if "skip_ws r3 = c3 # r4" for c3 r4
      proof -
        from that have "length r4 < length r3" by (rule skip_ws_Cons_length)
        with l2 l3 assms(3) show ?thesis by (intro members) simp
      qed
      with v Some p show ?thesis
        by (simp split: list.splits del: parse_value.simps parse_members.simps)
    qed
  qed
  show ?thesis
  proof (cases "skip_ws s")
    case Nil
    then show ?thesis by (simp del: parse_value.simps)
  next
    case (Cons c t)
    then have lt: "length t < length s" by (rule skip_ws_Cons_length)
    show ?thesis
    proof (cases "parse_string t")
      case None
      with Cons show ?thesis by (simp del: parse_value.simps)
    next
      case (Some q)
      obtain k r1 where q: "q = (k, r1)" by (cases q)
      with Some have l1: "length r1 < length t" using parse_string_length by blast
      show ?thesis
      proof (cases "skip_ws r1")
        case Nil
        with Cons Some q show ?thesis by (simp del: parse_value.simps)
      next
        case inner: (Cons c1 r2)
        then have "length r2 < length r1" by (rule skip_ws_Cons_length)
        with lt l1 have "length r2 < length s" by simp
        then show ?thesis
          using Cons Some q inner step [of r2 k]
          by (simp add: parse_members.simps(2) [of "Suc n"] parse_members.simps(2) [of n]
              del: parse_value.simps parse_members.simps)
      qed
    qed
  qed
qed

lemma parse_fuel_step:
  "(\<forall>s. 2 * length s \<le> n \<longrightarrow> parse_value (Suc n) s = parse_value n s)
   \<and> (\<forall>s. 2 * length s + 1 \<le> n \<longrightarrow> parse_elems (Suc n) s = parse_elems n s)
   \<and> (\<forall>s. 2 * length s + 1 \<le> n \<longrightarrow> parse_members (Suc n) s = parse_members n s)"
proof (induction n)
  case 0
  then show ?case by simp
next
  case (Suc n)
  have val: "\<And>s. 2 * length s \<le> n \<Longrightarrow> parse_value (Suc n) s = parse_value n s"
    and elems: "\<And>s. 2 * length s + 1 \<le> n \<Longrightarrow> parse_elems (Suc n) s = parse_elems n s"
    and members: "\<And>s. 2 * length s + 1 \<le> n \<Longrightarrow> parse_members (Suc n) s = parse_members n s"
    using Suc by blast+
  have "parse_value (Suc (Suc n)) s = parse_value (Suc n) s" if b: "2 * length s \<le> Suc n" for s
  proof (cases "skip_ws s")
    case Nil
    then show ?thesis by (simp add: parse_value_Suc del: parse_value.simps)
  next
    case (Cons c t)
    then have "length t < length s" by (rule skip_ws_Cons_length)
    with b have "2 * length t + 1 \<le> n" by simp
    then have "value_step (Suc n) c t = value_step n c t"
      using elems members by (intro value_step_fuel) blast+
    with Cons show ?thesis by (simp add: parse_value_Suc del: parse_value.simps)
  qed
  moreover have "parse_elems (Suc (Suc n)) s = parse_elems (Suc n) s"
    if "2 * length s + 1 \<le> Suc n" for s
    using that val elems by (intro parse_elems_fuel) blast+
  moreover have "parse_members (Suc (Suc n)) s = parse_members (Suc n) s"
    if "2 * length s + 1 \<le> Suc n" for s
    using that val members by (intro parse_members_fuel) blast+
  ultimately show ?case by blast
qed

lemma parse_value_fuel: "2 * length s \<le> n \<Longrightarrow> parse_value (n + k) s = parse_value n s"
proof (induction k)
  case 0
  then show ?case by simp
next
  case (Suc k)
  then have "2 * length s \<le> n + k" by simp
  then have "parse_value (Suc (n + k)) s = parse_value (n + k) s"
    using parse_fuel_step [of "n + k"] by blast
  with Suc show ?case by (simp del: parse_value.simps)
qed

lemma JSON_parse_fuel:
  assumes "2 * length s \<le> n"
  shows "JSON_parse s =
     (case parse_value n s of
        None \<Rightarrow> None
      | Some (v, rest) \<Rightarrow> if skip_ws rest = [] then Some v else None)"
proof -
  from assms obtain k where "n = 2 * length s + k" using le_Suc_ex by blast
  then have "parse_value n s = parse_value (2 * length s) s"
    using parse_value_fuel [of s "2 * length s" k] by simp
  then show ?thesis by (simp add: JSON_parse_def)
qed

section \<open>Parsed values\<close>

lemma update_values:
  assumes "\<forall>kv \<in> set al. P (snd kv)" and "P v"
  shows "\<forall>kv \<in> set (AList.update k v al). P (snd kv)"
  using assms by (induction al) auto

lemma foldl_update_json_value:
  assumes "distinct (map fst acc)" and "\<forall>kv \<in> set acc. json_value (snd kv)"
    and "\<forall>kv \<in> set ms. json_value (snd kv)"
  shows "json_value (JObj (foldl (\<lambda>kvs (k, v). AList.update k v kvs) acc ms))"
  using assms
proof (induction ms arbitrary: acc)
  case Nil
  then show ?case by simp
next
  case (Cons m ms)
  obtain k v where m: "m = (k, v)" by (cases m)
  with Cons.prems have v: "json_value v" by simp
  have "distinct (map fst (AList.update k v acc))"
    using Cons.prems(1) by (rule distinct_update)
  moreover have "\<forall>kv \<in> set (AList.update k v acc). json_value (snd kv)"
    using Cons.prems(2) v by (rule update_values)
  moreover have "\<forall>kv \<in> set ms. json_value (snd kv)" using Cons.prems(3) by simp
  ultimately have "json_value (JObj (foldl (\<lambda>kvs (k, v). AList.update k v kvs) (AList.update k v acc) ms))"
    by (rule Cons.IH)
  with m show ?case by simp
qed

lemma mk_obj_json_value: "\<forall>kv \<in> set ms. json_value (snd kv) \<Longrightarrow> json_value (mk_obj ms)"
  using foldl_update_json_value [of "[]" ms] by (simp add: mk_obj_def)

lemma value_step_json_value:
  assumes elems: "\<And>s vs r. parse_elems n s = Some (vs, r) \<Longrightarrow> \<forall>v \<in> set vs. json_value v"
    and members: "\<And>s ms r. parse_members n s = Some (ms, r) \<Longrightarrow> \<forall>kv \<in> set ms. json_value (snd kv)"
    and step: "value_step n c t = Some (v, r)"
  shows "json_value v"
proof -
  consider (lit) "c = CHR ''n'' \<or> c = CHR ''t'' \<or> c = CHR ''f''"
    | (str) "c = dquote"
    | (arr) "c = CHR ''[''"
    | (obj) "c = CHR ''{''"
    | (num) "c \<noteq> CHR ''n''" "c \<noteq> CHR ''t''" "c \<noteq> CHR ''f''" "c \<noteq> dquote" "c \<noteq> CHR ''[''" "c \<noteq> CHR ''{''"
    by blast
  then show ?thesis
  proof cases
    case lit
    with step show ?thesis by (auto simp: value_step_def)
  next
    case str
    with step show ?thesis
      by (auto simp: value_step_def map_fst_def split: option.splits)
  next
    case arr
    with step obtain d r1 where d: "skip_ws t = d # r1"
      by (cases "skip_ws t") (auto simp: value_step_def)
    show ?thesis
    proof (cases "d = CHR '']''")
      case True
      with step arr d show ?thesis by (auto simp: value_step_def)
    next
      case False
      with step arr d obtain vs where "parse_elems n (d # r1) = Some (vs, r)" "v = JArr vs"
        by (auto simp: value_step_def map_fst_def split: option.splits)
      then show ?thesis using elems by simp
    qed
  next
    case obj
    with step obtain d r1 where d: "skip_ws t = d # r1"
      by (cases "skip_ws t") (auto simp: value_step_def)
    show ?thesis
    proof (cases "d = CHR ''}''")
      case True
      with step obj d show ?thesis by (auto simp: value_step_def)
    next
      case False
      with step obj d obtain ms where "parse_members n (d # r1) = Some (ms, r)" "v = mk_obj ms"
        by (auto simp: value_step_def map_fst_def split: option.splits)
      then show ?thesis using members mk_obj_json_value by simp
    qed
  next
    case num
    with step have "parse_number (c # t) = Some (v, r)" by (simp add: value_step_def)
    then show ?thesis by (auto simp: parse_number_def Let_def split: if_splits)
  qed
qed

lemma parse_json_value:
  "(\<forall>s v r. parse_value n s = Some (v, r) \<longrightarrow> json_value v)
   \<and> (\<forall>s vs r. parse_elems n s = Some (vs, r) \<longrightarrow> (\<forall>v \<in> set vs. json_value v))
   \<and> (\<forall>s ms r. parse_members n s = Some (ms, r) \<longrightarrow> (\<forall>kv \<in> set ms. json_value (snd kv)))"
proof (induction n)
  case 0
  then show ?case by simp
next
  case (Suc n)
  have val: "\<And>s v r. parse_value n s = Some (v, r) \<Longrightarrow> json_value v"
    and elems: "\<And>s vs r. parse_elems n s = Some (vs, r) \<Longrightarrow> \<forall>v \<in> set vs. json_value v"
    and members: "\<And>s ms r. parse_members n s = Some (ms, r) \<Longrightarrow> \<forall>kv \<in> set ms. json_value (snd kv)"
    using Suc by blast+
  have "json_value v" if run: "parse_value (Suc n) s = Some (v, r)" for s v r
  proof -
    from run obtain c t where c: "skip_ws s = c # t"
      by (cases "skip_ws s") (auto simp: parse_value_Suc simp del: parse_value.simps)
    with run have "value_step n c t = Some (v, r)"
      by (simp add: parse_value_Suc del: parse_value.simps)
    then show ?thesis
      using elems members by (intro value_step_json_value [of n c t v r]) blast+
  qed
  moreover have "\<forall>v \<in> set vs. json_value v" if run: "parse_elems (Suc n) s = Some (vs, r)" for s vs r
  proof -
    from run obtain v r0 where v: "parse_value n s = Some (v, r0)"
      by (cases "parse_value n s") auto
    then have jv: "json_value v" by (rule val)
    from run v obtain c r1 where c: "skip_ws r0 = c # r1"
      by (cases "skip_ws r0") auto
    show ?thesis
    proof (cases "c = CHR '',''")
      case True
      with run v c obtain vs' where "parse_elems n r1 = Some (vs', r)" "vs = v # vs'"
        by (auto simp: cons_fst_def split: option.splits)
      with jv elems show ?thesis by auto
    next
      case False
      with run v c have "vs = [v]" by (simp split: if_splits)
      with jv show ?thesis by simp
    qed
  qed
  moreover have "\<forall>kv \<in> set ms. json_value (snd kv)"
    if run: "parse_members (Suc n) s = Some (ms, r)" for s ms r
  proof -
    from run obtain c t where c: "skip_ws s = c # t" "c = dquote"
      by (cases "skip_ws s") (auto split: if_splits)
    from run c obtain k r1 where k: "parse_string t = Some (k, r1)"
      by (cases "parse_string t") auto
    from run c k obtain c1 r2 where c1: "skip_ws r1 = c1 # r2" "c1 = CHR '':''"
      by (cases "skip_ws r1") (auto split: if_splits)
    from run c k c1 obtain v r3 where v: "parse_value n r2 = Some (v, r3)"
      by (cases "parse_value n r2") auto
    then have jv: "json_value v" by (rule val)
    from run c k c1 v obtain c3 r4 where c3: "skip_ws r3 = c3 # r4"
      by (cases "skip_ws r3") auto
    show ?thesis
    proof (cases "c3 = CHR '',''")
      case True
      with run c k c1 v c3 obtain ms' where "parse_members n r4 = Some (ms', r)" "ms = (k, v) # ms'"
        by (auto simp: cons_fst_def split: option.splits)
      with jv members show ?thesis by auto
    next
      case False
      with run c k c1 v c3 have "ms = [(k, v)]" by (simp split: if_splits)
      with jv show ?thesis by simp
    qed
  qed
  ultimately show ?case by blast
qed

lemma JSON_parse_json_value: "JSON_parse s = Some v \<Longrightarrow> json_value v"
proof -
  assume "JSON_parse s = Some v"
  then obtain r where "parse_value (2 * length s) s = Some (v, r)"
    by (auto simp: JSON_parse_def split: option.splits if_splits)
  then show ?thesis using parse_json_value [of "2 * length s"] by blast
qed

section \<open>Running the service\<close>

lemma await_js: "await (js r) k st = (case r of Inl e \<Rightarrow> (Inl e, st) | Inr x \<Rightarrow> k x st)"
  by (simp add: await_def js_def split: sum.splits)

lemma await_this_field: "await (this_field f) k st = k (f st) st"
  by (simp add: await_def this_field_def)

lemma await_return: "await (return x) k st = k x st"
  by (simp add: await_def return_def)

lemma await_throw: "await (throw e) k st = (Inl e, st)"
  by (simp add: await_def throw_def)

lemma await_do_fetch:
  "await (do_fetch env req) k st =
     (case fetch env req of
        Inl e \<Rightarrow> (Inl e, st\<lparr>requests := requests st @ [req]\<rparr>)
      | Inr r \<Rightarrow> k r (st\<lparr>requests := requests st @ [req]\<rparr>))"
  by (simp add: await_def do_fetch_def split: sum.splits)

lemma await_notify:
  "await (notify n) k st = k () (st\<lparr>notifications := notifications st @ [n]\<rparr>)"
  by (simp add: await_def notify_def)

lemma await_deleteSession:
  "await deleteSession k st = k () (st\<lparr>secrets := (secrets st)(SESSION_SECRET_KEY := None)\<rparr>)"
  by (simp add: await_def deleteSession_def secret_delete_def)

lemma setSession_eq:
  "setSession v st =
     (case JSON_stringify v of
        None \<Rightarrow> (Inl (HostFailure ''secret storage value is not a string''), st\<lparr>m_session := v\<rparr>)
      | Some text \<Rightarrow> (Inr (), st\<lparr>m_session := v, secrets := (secrets st)(SESSION_SECRET_KEY \<mapsto> text)\<rparr>))"
  by (simp add: setSession_def await_def throw_def secret_set_def split: option.splits)

lemma getSession_eq:
  "getSession st =
     (case secrets st SESSION_SECRET_KEY of
        None \<Rightarrow> (Inr JUndefined, st)
      | Some text \<Rightarrow> if text = [] then (Inr JUndefined, st) else (JSON_parse_js text, st))"
  by (simp add: getSession_def await_def secret_get_def return_def js_def split: option.splits)

lemmas io_simps = await_js await_this_field await_return await_throw await_do_fetch await_notify
  await_deleteSession

lemma promise_race_eq: "promise_race env st = (race_outcome (race env), st)"
  by (simp add: promise_race_def race_outcome_def js_def throw_def split: race_event.splits)

lemma login_eq:
  "login env st =
     (case opener_open env (login_url env st) of
        Inl e \<Rightarrow>
          (Inl e, st\<lparr>uuid_calls := Suc (uuid_calls st),
                      m_pendingStates := m_pendingStates st @ [generateUuid env (uuid_calls st)],
                      opened := opened st @ [login_url env st]\<rparr>)
      | Inr b \<Rightarrow>
          (race_outcome (race env),
           st\<lparr>uuid_calls := Suc (uuid_calls st),
              opened := opened st @ [login_url env st],
              m_pendingStates :=
                filter (\<lambda>n. n \<noteq> generateUuid env (uuid_calls st)) (m_pendingStates st)\<rparr>))"
  by (simp add: login_def await_def do_generateUuid_def this_field_def do_open_def try_finally_def
      promise_race_eq login_url_def split: sum.splits)

lemma login_open_failure_keeps_pending:
  assumes "opener_open env (login_url env st) = Inl e"
  shows "generateUuid env (uuid_calls st) \<in> set (m_pendingStates (snd (login env st)))"
  using assms by (simp add: login_eq)

lemma login_race_clears_pending:
  assumes "opener_open env (login_url env st) = Inr b"
  shows "m_pendingStates (snd (login (env\<lparr>race := outcome\<rparr>) st))
           = filter (\<lambda>n. n \<noteq> generateUuid env (uuid_calls st)) (m_pendingStates st)
       \<and> generateUuid env (uuid_calls st) \<notin> set (m_pendingStates (snd (login (env\<lparr>race := outcome\<rparr>) st)))"
  using assms by (simp add: login_eq login_url_def)

lemma handleUri_eq:
  "handleUri u = Inr (case search_get (URLSearchParams (query u)) ''data'' of None \<Rightarrow> [] | Some d \<Rightarrow> d)"
  by (simp add: handleUri_def Let_def split: option.splits)

lemma login_callback_result:
  assumes "opener_open env (login_url env st) = Inr b"
    and "race env = HandleURL u"
  shows "fst (login env st)
     = Inr (case search_get (URLSearchParams (query u)) ''data'' of None \<Rightarrow> [] | Some d \<Rightarrow> d)"
  using assms by (simp add: login_eq race_outcome_def handleURL_def handleUri_eq)

lemma fired_refreshTokens_try: "fired (snd (refreshTokens_try env st)) = fired st"
  by (simp add: refreshTokens_try_def io_simps setSession_eq JSON_stringify_def throw_def
      split: sum.splits if_splits)

lemma fired_refreshTokens: "fired (snd (refreshTokens env st)) = fired st"
  using fired_refreshTokens_try [of env st]
  by (cases "refreshTokens_try env st")
    (auto simp: refreshTokens_def io_simps catch_all_def return_def split: sum.splits)

lemma getUserInfo_fired: "fired (snd (getUserInfo env d st)) = fired st"
  by (simp add: getUserInfo_def io_simps return_def split: sum.splits)

lemma login_fired: "fired (snd (login env st)) = fired st"
  by (simp add: login_eq split: sum.splits)

lemma await_run:
  "await m k st = (case m st of (Inl e, st1) \<Rightarrow> (Inl e, st1) | (Inr x, st1) \<Rightarrow> k x st1)"
  by (simp add: await_def)

lemma getSession_json_value:
  "getSession st = (Inr v, st') \<Longrightarrow> v = JUndefined \<or> json_value v"
  by (auto simp: getSession_eq JSON_parse_js_def split: option.splits if_splits
      dest: JSON_parse_json_value)

section \<open>Properties of the authentication service\<close>

text \<open>
  C1. A successful refresh replaces the whole session. If the service holds a
  session and the \<^verbatim>\<open>try\<close> block of \<^verbatim>\<open>refreshTokens\<close> completes, then
  \<^verbatim>\<open>refreshTokens\<close> returns with that state, the refresh endpoint answered
  success with a body \<open>data\<close>, and the new in-memory session has the \<^verbatim>\<open>id\<close> of the
  original session, \<^verbatim>\<open>data.access_token\<close> as access token and \<^verbatim>\<open>data.refresh_token\<close>
  as refresh token; the secret storage holds the JSON text of exactly this
  session, so both tokens are replaced by one write.
\<close>

theorem refreshTokens_replaces_session:
  assumes "truthy (m_session st)"
    and "refreshTokens_try env st = (Inr (), st')"
  shows "refreshTokens env st = (Inr (), st')
    \<and> (\<exists>tok response data.
          get_prop (m_session st) ''refreshToken'' = Inr tok
        \<and> fetch env (refresh_request (subscriptionsAPIBase st) tok) = Inr response
        \<and> ok response
        \<and> response_json response = Inr data
        \<and> get_prop (m_session st') ''id'' = get_prop (m_session st) ''id''
        \<and> get_prop (m_session st') ''accessToken'' = get_prop data ''access_token''
        \<and> get_prop (m_session st') ''refreshToken'' = get_prop data ''refresh_token''
        \<and> secrets st' SESSION_SECRET_KEY = JSON_stringify (m_session st'))"
proof
  show "refreshTokens env st = (Inr (), st')"
    using assms by (simp add: refreshTokens_def io_simps catch_all_def)
next
  show "\<exists>tok response data.
          get_prop (m_session st) ''refreshToken'' = Inr tok
        \<and> fetch env (refresh_request (subscriptionsAPIBase st) tok) = Inr response
        \<and> ok response
        \<and> response_json response = Inr data
        \<and> get_prop (m_session st') ''id'' = get_prop (m_session st) ''id''
        \<and> get_prop (m_session st') ''accessToken'' = get_prop data ''access_token''
        \<and> get_prop (m_session st') ''refreshToken'' = get_prop data ''refresh_token''
        \<and> secrets st' SESSION_SECRET_KEY = JSON_stringify (m_session st')"
    using assms(2)
    by (auto simp: refreshTokens_try_def io_simps setSession_eq JSON_stringify_def throw_def
        split: sum.splits if_splits)
qed

theorem refreshTokens_replaces_session_witness:
  "truthy (m_session st0)
   \<and> refreshTokens env0 st0 = (Inr (), snd (refreshTokens_try env0 st0))
   \<and> (\<exists>tok response data.
          get_prop (m_session st0) ''refreshToken'' = Inr tok
        \<and> fetch env0 (refresh_request (subscriptionsAPIBase st0) tok) = Inr response
        \<and> ok response
        \<and> response_json response = Inr data
        \<and> get_prop (m_session (snd (refreshTokens_try env0 st0))) ''id'' = get_prop (m_session st0) ''id''
        \<and> get_prop (m_session (snd (refreshTokens_try env0 st0))) ''accessToken'' = get_prop data ''access_token''
        \<and> get_prop (m_session (snd (refreshTokens_try env0 st0))) ''refreshToken'' = get_prop data ''refresh_token''
        \<and> secrets (snd (refreshTokens_try env0 st0)) SESSION_SECRET_KEY
            = JSON_stringify (m_session (snd (refreshTokens_try env0 st0))))
   \<and> m_session (snd (refreshTokens env0 st0)) = session_a
   \<and> fst (getSession (snd (refreshTokens env0 st0))) = Inr session_a"
proof -
  have h1: "truthy (m_session st0)" by (simp add: st0_def)
  have "fst (refreshTokens_try env0 st0) = Inr ()" by code_simp
  then have h2: "refreshTokens_try env0 st0 = (Inr (), snd (refreshTokens_try env0 st0))"
    by (simp add: prod_eq_iff)
  have h3: "m_session (snd (refreshTokens env0 st0)) = session_a" by code_simp
  have h4: "fst (getSession (snd (refreshTokens env0 st0))) = Inr session_a" by code_simp
  from refreshTokens_replaces_session [OF h1 h2] h1 h3 h4 show ?thesis by simp
qed



text \<open>
  C3. A call of \<^verbatim>\<open>createSession\<close> that returns a session has fired
  \<^verbatim>\<open>onDidAuthenticate\<close> exactly once, with that session; \<^verbatim>\<open>refreshTokens\<close> never
  fires it.
\<close>

theorem onDidAuthenticate_fired_once:
  "(createSession env st = (Inr session, st') \<longrightarrow> fired st' = fired st @ [session])
   \<and> fired (snd (refreshTokens env st2)) = fired st2"
proof
  show "createSession env st = (Inr session, st') \<longrightarrow> fired st' = fired st @ [session]"
  proof
    assume run: "createSession env st = (Inr session, st')"
    obtain r1 st1 where l: "login env st = (r1, st1)" by (cases "login env st")
    with run obtain d where d: "r1 = Inr d" "d \<noteq> []"
      by (cases r1) (auto simp: createSession_def await_run throw_def split: if_splits)
    obtain r2 st2 where g: "getUserInfo env d st1 = (r2, st2)" by (cases "getUserInfo env d st1")
    with run l d obtain userInfo where u: "r2 = Inr userInfo"
      by (cases r2) (auto simp: createSession_def await_run)
    have f1: "fired st1 = fired st" using login_fired [of env st] l by simp
    have f2: "fired st2 = fired st1" using getUserInfo_fired [of env d st1] g by simp
    from run l d g u show "fired st' = fired st @ [session]"
      using f1 f2
      by (auto simp: createSession_def await_run js_def notifyWaitlistPosition_def notify_def
          return_def do_generateUuid_def fire_def setSession_eq JSON_stringify_def
          split: sum.splits if_splits)
  qed
next
  show "fired (snd (refreshTokens env st2)) = fired st2" by (rule fired_refreshTokens)
qed

theorem onDidAuthenticate_fired_once_witness:
  "fired (snd (createSession env0 st0)) = [session_created]"
proof -
  have "fst (createSession env0 st0) = Inr session_created" by code_simp
  then have h: "createSession env0 st0 = (Inr session_created, snd (createSession env0 st0))"
    by (simp add: prod_eq_iff)
  have "fired st0 = []" by (simp add: st0_def)
  with onDidAuthenticate_fired_once [of env0 st0 session_created "snd (createSession env0 st0)"] h
  show ?thesis by simp
qed

text \<open>
  C4. \<^verbatim>\<open>login\<close> pushes the identifier of the attempt and awaits the opening of the
  authorization URL before its \<^verbatim>\<open>try\<close> block. When the opener rejects, \<^verbatim>\<open>login\<close>
  fails with that error without reaching \<^verbatim>\<open>finally\<close>, and the identifier
  \<^verbatim>\<open>uuid-0\<close> is still in \<^verbatim>\<open>_pendingStates\<close> when the attempt has finished,
  whichever event would have settled the race.
\<close>

theorem login_open_rejected_leaves_pending:
  "m_pendingStates st0 = []
   \<and> generateUuid env_open_rejects (uuid_calls st0) = ''uuid-0''
   \<and> fst (login env_open_rejects st0) = Inl (HostFailure ''cannot open'')
   \<and> m_pendingStates (snd (login env_open_rejects st0)) = [''uuid-0'']
   \<and> m_pendingStates (snd (login (env_open_rejects\<lparr>race := Timeout\<rparr>) st0)) = [''uuid-0'']
   \<and> m_pendingStates (snd (login (env_open_rejects\<lparr>race := CancellationRequested\<rparr>) st0))
       = [''uuid-0'']"
  by code_simp

text \<open>
  C5. After \<^verbatim>\<open>deleteSession\<close> the stored session is gone, but
  \<^verbatim>\<open>this._session\<close> is still set: in the scenario of the specification a following
  \<^verbatim>\<open>refreshTokens\<close> sends both requests and stores a session again.
\<close>

theorem refreshTokens_after_deleteSession:
  "m_session (snd (deleteSession st0)) = m_session st0
   \<and> secrets (snd (deleteSession st0)) SESSION_SECRET_KEY = None
   \<and> fst (getSession (snd (deleteSession st0))) = Inr JUndefined
   \<and> requests (snd (deleteSession st0)) = []
   \<and> map url (requests (snd (refreshTokens env0 (snd (deleteSession st0)))))
       = [''https://api.codestory.ai/v1/auth/refresh'', ''https://api.codestory.ai/v1/users/me'']
   \<and> m_session (snd (refreshTokens env0 (snd (deleteSession st0)))) = session_a
   \<and> secrets (snd (refreshTokens env0 (snd (deleteSession st0)))) SESSION_SECRET_KEY
       = JSON_stringify session_a
   \<and> fst (getSession (snd (refreshTokens env0 (snd (deleteSession st0))))) = Inr session_a"
  by code_simp

text \<open>
  C6. If the callback URI that settles the race has no \<^verbatim>\<open>data\<close> query parameter,
  \<^verbatim>\<open>login\<close> resolves to the empty string, \<^verbatim>\<open>createSession\<close> throws the login
  failure, the secret storage is unchanged and \<^verbatim>\<open>getSession\<close> returns what it
  returned before.
\<close>

theorem createSession_without_data:
  assumes "opener_open env (login_url env st) = Inr b"
    and "race env = HandleURL u"
    and "search_get (URLSearchParams (query u)) ''data'' = None"
  shows "fst (login env st) = Inr []
       \<and> fst (createSession env st) = Inl (JsError ''CodeStory login failure'')
       \<and> secrets (snd (createSession env st)) = secrets st
       \<and> fst (getSession (snd (createSession env st))) = fst (getSession st)"
  using assms
  by (simp add: createSession_def await_def login_eq race_outcome_def handleURL_def handleUri_eq
      throw_def getSession_eq split: option.splits)

theorem createSession_without_data_witness:
  "fst (login env_no_data st0) = Inr []
   \<and> fst (createSession env_no_data st0) = Inl (JsError ''CodeStory login failure'')
   \<and> secrets (snd (createSession env_no_data st0)) = secrets st0
   \<and> fst (getSession (snd (createSession env_no_data st0))) = fst (getSession st0)"
proof -
  have h1: "opener_open env_no_data (login_url env_no_data st0) = Inr True"
    by (simp add: env_no_data_def env0_def)
  have h2: "race env_no_data = HandleURL callback_no_data" by (simp add: env_no_data_def)
  have h3: "search_get (URLSearchParams (query callback_no_data)) ''data'' = None" by code_simp
  from createSession_without_data [OF h1 h2 h3] show ?thesis .
qed

text \<open>
  C7. The login attempt with the pending identifier \<^verbatim>\<open>uuid-0\<close> is resolved by a
  callback URI whose \<^verbatim>\<open>state\<close> is \<^verbatim>\<open>other\<close>, and likewise by a callback URI
  without any \<^verbatim>\<open>state\<close>: the handler returns the \<^verbatim>\<open>data\<close> parameter and never
  compares the \<^verbatim>\<open>state\<close> of the callback with \<^verbatim>\<open>_pendingStates\<close>.
\<close>

theorem login_resolves_other_state:
  "race env0 = HandleURL callback_other_state
   \<and> generateUuid env0 (uuid_calls st0) = ''uuid-0''
   \<and> search_get (URLSearchParams (query callback_other_state)) ''state'' = Some ''other''
   \<and> search_get (URLSearchParams (query callback_other_state)) ''state''
       \<noteq> Some (generateUuid env0 (uuid_calls st0))
   \<and> fst (login env0 st0) = Inr ''eyJ0''
   \<and> search_get (URLSearchParams (query callback_no_state)) ''state'' = None
   \<and> fst (login (env0\<lparr>race := HandleURL callback_no_state\<rparr>) st0) = Inr ''eyJ0''"
  by code_simp

text \<open>
  C8. If the service holds a session, the refresh endpoint answers success with
  a body whose access token can be read, and the profile request then fails (the
  request, the reading of its body, the parsing of the body, or the reading of a
  \<^verbatim>\<open>null\<close> profile), \<^verbatim>\<open>refreshTokens\<close>
  returns normally and neither the secret storage nor the in-memory session has
  changed: the new tokens are not stored.
\<close>

theorem refreshTokens_profile_failure:
  assumes "truthy (m_session st)"
    and "get_prop (m_session st) ''refreshToken'' = Inr tok"
    and "fetch env (refresh_request (subscriptionsAPIBase st) tok) = Inr response"
    and "ok response"
    and "response_json response = Inr data"
    and "get_prop data ''access_token'' = Inr bearer"
    and "profile_fails env (subscriptionsAPIBase st) bearer"
  shows "fst (refreshTokens env st) = Inr ()
       \<and> secrets (snd (refreshTokens env st)) = secrets st
       \<and> m_session (snd (refreshTokens env st)) = m_session st
       \<and> fst (getSession (snd (refreshTokens env st))) = fst (getSession st)"
  using assms
  by (auto simp: refreshTokens_def refreshTokens_try_def io_simps catch_all_def profile_fails_def
      JSON_parse_js_def getSession_eq split: sum.splits option.splits)

theorem refreshTokens_profile_failure_witness:
  "fst (refreshTokens env_profile_down st0) = Inr ()
   \<and> secrets (snd (refreshTokens env_profile_down st0)) = secrets st0
   \<and> m_session (snd (refreshTokens env_profile_down st0)) = m_session st0
   \<and> fst (getSession (snd (refreshTokens env_profile_down st0))) = fst (getSession st0)"
proof -
  let ?r = "\<lparr>ok = True, body = Inr ''{\"access_token\":\"A2\",\"refresh_token\":\"r2\"}''\<rparr>"
  let ?d = "JObj [(''access_token'', JStr ''A2''), (''refresh_token'', JStr ''r2'')]"
  have h1: "truthy (m_session st0)" by (simp add: st0_def)
  have h2: "get_prop (m_session st0) ''refreshToken'' = Inr (JStr ''r1'')" by (simp add: st0_def)
  have h3: "fetch env_profile_down (refresh_request (subscriptionsAPIBase st0) (JStr ''r1'')) = Inr ?r"
    by (simp add: env_profile_down_def st0_def refresh_request_def)
  have h4: "ok ?r" by simp
  have h5: "response_json ?r = Inr ?d" by code_simp
  have h6: "get_prop ?d ''access_token'' = Inr (JStr ''A2'')" by simp
  have h7: "profile_fails env_profile_down (subscriptionsAPIBase st0) (JStr ''A2'')"
    by (simp add: profile_fails_def env_profile_down_def st0_def profile_request_def)
  from refreshTokens_profile_failure [OF h1 h2 h3 h4 h5 h6 h7] show ?thesis .
qed

text \<open>
  C9. For every session \<open>S\<close> that is a JSON value, \<^verbatim>\<open>getSession\<close> right after
  \<^verbatim>\<open>setSession(S)\<close> returns \<open>S\<close>. The JSON values are the values that
  \<^verbatim>\<open>JSON.parse\<close> returns (lemma \<open>JSON_parse_json_value\<close>), so no other session can
  come back from \<^verbatim>\<open>getSession\<close>.
\<close>

theorem getSession_after_setSession:
  assumes "json_value S"
  shows "fst (getSession (snd (setSession S st))) = Inr S"
proof -
  from assms have "S \<noteq> JUndefined" by auto
  moreover have "stringify_val S \<noteq> []"
    using stringify_val_head [OF assms] by auto
  ultimately show ?thesis
    using JSON_parse_stringify [OF assms]
    by (simp add: setSession_eq getSession_eq JSON_stringify_def JSON_parse_js_def)
qed

theorem getSession_after_setSession_witness:
  "fst (getSession (snd (setSession session_a st0))) = Inr session_a"
proof -
  have "json_value session_a" by (simp add: session_a_def)
  then show ?thesis by (rule getSession_after_setSession)
qed

section \<open>Properties of the inline edit\<close>

text \<open>
  C10. \<^verbatim>\<open>InlineEdit.equals\<close> ignores the \<^verbatim>\<open>commands\<close> field: two inline edits whose
  \<^verbatim>\<open>edit\<close> fields are equal by \<^verbatim>\<open>SingleTextEdit.equals\<close>, whose \<^verbatim>\<open>isCollapsed\<close> and
  \<^verbatim>\<open>renderExplicitly\<close> flags are the same and whose \<^verbatim>\<open>inlineCompletion\<close> is the same
  object are equal by \<^verbatim>\<open>equals\<close>, although their \<^verbatim>\<open>commands\<close> differ.
\<close>

theorem equals_ignores_commands:
  assumes "edit_equals (edit a) (edit b)"
    and "isCollapsed a = isCollapsed b"
    and "renderExplicitly a = renderExplicitly b"
    and "inlineCompletion a = inlineCompletion b"
    and "commands a \<noteq> commands b"
  shows "equals edit_equals a b"
  using assms by (simp add: equals_def)

theorem equals_ignores_commands_witness:
  "equals (=)
     \<lparr>edit = ''x'', isCollapsed = False, renderExplicitly = True,
      commands = [1::nat], inlineCompletion = 7\<rparr>
     \<lparr>edit = ''x'', isCollapsed = False, renderExplicitly = True,
      commands = [2, 3], inlineCompletion = 7\<rparr>"
  by (rule equals_ignores_commands) simp_all

end
